theory Spec2Isabelle
  imports Main "HOL-Library.Sublist" "HOL-Library.AList"
begin

section \<open>Python strings\<close>

text \<open>
  A Python \<open>str\<close> is a \<open>string\<close>; a \<open>char\<close> stands for the code point of the same
  number, so the model covers the strings whose code points are below 256 (ASCII and
  Latin-1). The string methods below are the ones \<open>app.py\<close> and the library functions it
  calls use.
\<close>

definition is_space :: "char \<Rightarrow> bool" where
  \<comment> \<open>\<open>str.isspace\<close> on one code point below 256\<close>
  "is_space c = (of_char c \<in> {9, 10, 11, 12, 13, 28, 29, 30, 31, 32, 133, 160 :: nat})"

definition chr_lower :: "char \<Rightarrow> char" where
  \<comment> \<open>\<open>str.lower\<close> on one code point below 256: A-Z, and the Latin-1 capitals but the
      multiplication sign, move up by 32\<close>
  "chr_lower c =
     (let n = of_char c :: nat
      in if (65 \<le> n \<and> n \<le> 90) \<or> (192 \<le> n \<and> n \<le> 222 \<and> n \<noteq> 215)
         then char_of (n + 32) else c)"

definition str_lower :: "string \<Rightarrow> string" where
  "str_lower s = map chr_lower s"

definition lstrip_chars :: "char set \<Rightarrow> string \<Rightarrow> string" where
  "lstrip_chars cs s = dropWhile (\<lambda>c. c \<in> cs) s"

definition strip_chars :: "char set \<Rightarrow> string \<Rightarrow> string" where
  \<comment> \<open>\<open>s.strip(chars)\<close>\<close>
  "strip_chars cs s = rev (lstrip_chars cs (rev (lstrip_chars cs s)))"

definition str_strip :: "string \<Rightarrow> string" where
  \<comment> \<open>\<open>s.strip()\<close>: white space off both ends\<close>
  "str_strip s = strip_chars {c. is_space c} s"

definition strip_slash :: "string \<Rightarrow> string" where
  \<comment> \<open>\<open>s.strip('/')\<close>\<close>
  "strip_slash s = strip_chars {CHR ''/''} s"

fun split_on :: "char \<Rightarrow> string \<Rightarrow> string list" where
  \<comment> \<open>\<open>s.split(sep)\<close> for a one-character separator\<close>
  "split_on sep [] = [[]]"
| "split_on sep (c # cs) =
     (if c = sep then [] # split_on sep cs
      else (case split_on sep cs of
              [] \<Rightarrow> [[c]]
            | w # ws \<Rightarrow> (c # w) # ws))"

fun split_ws :: "string \<Rightarrow> string list" where
  \<comment> \<open>\<open>s.split()\<close>: the maximal runs of characters that are not white space\<close>
  "split_ws [] = []"
| "split_ws (c # cs) =
     (if is_space c then split_ws cs
      else if cs = [] \<or> is_space (hd cs) then [c] # split_ws cs
      else (case split_ws cs of
              [] \<Rightarrow> [[c]]
            | w # ws \<Rightarrow> (c # w) # ws))"

fun str_join :: "string \<Rightarrow> string list \<Rightarrow> string" where
  \<comment> \<open>\<open>sep.join(words)\<close>\<close>
  "str_join sep [] = []"
| "str_join sep [w] = w"
| "str_join sep (w # v # ws) = w @ sep @ str_join sep (v # ws)"

primrec str_in :: "string \<Rightarrow> string \<Rightarrow> bool" where
  \<comment> \<open>\<open>sub in s\<close>: \<open>sub\<close> occurs in \<open>s\<close> as a contiguous run\<close>
  "str_in sub [] = (sub = [])"
| "str_in sub (c # cs) = (prefix sub (c # cs) \<or> str_in sub cs)"

definition rsplit1_dot :: "string \<Rightarrow> string list" where
  \<comment> \<open>\<open>s.rsplit('.', 1)\<close>: split once, at the last dot\<close>
  "rsplit1_dot s =
     (if CHR ''.'' \<in> set s
      then [rev (tl (dropWhile (\<lambda>c. c \<noteq> CHR ''.'') (rev s))),
            rev (takeWhile (\<lambda>c. c \<noteq> CHR ''.'') (rev s))]
      else [s])"

section \<open>The configuration and the extension check\<close>

definition UPLOAD_FOLDER :: string where
  "UPLOAD_FOLDER = ''/app/files''"

definition ALLOWED_EXTENSIONS :: "string set" where
  "ALLOWED_EXTENSIONS =
     {''txt'', ''pdf'', ''png'', ''jpg'', ''jpeg'', ''gif'', ''doc'', ''docx'', ''xls'',
      ''xlsx'', ''zip'', ''rar''}"

definition allowed_file :: "string \<Rightarrow> bool" where
  "allowed_file filename =
     (CHR ''.'' \<in> set filename \<and>
      str_lower (rsplit1_dot filename ! 1) \<in> ALLOWED_EXTENSIONS)"

section \<open>werkzeug: \<open>secure_filename\<close>\<close>

text \<open>
  \<open>secure_filename\<close> first normalises to NFKD and drops what is not ASCII. An ASCII
  character is its own normal form; a Latin-1 character leaves its base letter or digits
  behind when it has a compatibility decomposition, and nothing otherwise. Combining marks
  are not ASCII, so their reordering is not seen and the step works character by
  character. The table is that of \<open>unicodedata\<close> for the code points 128 to 255.
\<close>

definition nfkd_ascii :: "char \<Rightarrow> string" where
  "nfkd_ascii c =
     (let n = of_char c :: nat in
      if n < 128 then [c]
      else if n \<in> {160, 168, 175, 180, 184} then '' ''
      else if n = 170 then ''a''
      else if n = 178 then ''2''
      else if n = 179 then ''3''
      else if n = 185 then ''1''
      else if n = 186 then ''o''
      else if n = 188 then ''14''
      else if n = 189 then ''12''
      else if n = 190 then ''34''
      else if 192 \<le> n \<and> n \<le> 197 then ''A''
      else if n = 199 then ''C''
      else if 200 \<le> n \<and> n \<le> 203 then ''E''
      else if 204 \<le> n \<and> n \<le> 207 then ''I''
      else if n = 209 then ''N''
      else if 210 \<le> n \<and> n \<le> 214 then ''O''
      else if 217 \<le> n \<and> n \<le> 220 then ''U''
      else if n = 221 then ''Y''
      else if 224 \<le> n \<and> n \<le> 229 then ''a''
      else if n = 231 then ''c''
      else if 232 \<le> n \<and> n \<le> 235 then ''e''
      else if 236 \<le> n \<and> n \<le> 239 then ''i''
      else if n = 241 then ''n''
      else if 242 \<le> n \<and> n \<le> 246 then ''o''
      else if 249 \<le> n \<and> n \<le> 252 then ''u''
      else if n = 253 \<or> n = 255 then ''y''
      else [])"

definition filename_safe_char :: "char \<Rightarrow> bool" where
  \<comment> \<open>the characters the pattern \<open>[^A-Za-z0-9_.-]\<close> leaves in place\<close>
  "filename_safe_char c =
     (let n = of_char c :: nat in
      (65 \<le> n \<and> n \<le> 90) \<or> (97 \<le> n \<and> n \<le> 122) \<or> (48 \<le> n \<and> n \<le> 57) \<or>
      c = CHR ''_'' \<or> c = CHR ''.'' \<or> c = CHR ''-'')"

definition secure_filename :: "string \<Rightarrow> string" where
  \<comment> \<open>on POSIX: \<open>os.sep\<close> is the slash, there is no \<open>altsep\<close>, and the branch for the
      device names of Windows is not taken\<close>
  "secure_filename filename =
     (let ascii = concat (map nfkd_ascii filename);
          spaced = map (\<lambda>c. if c = CHR ''/'' then CHR '' '' else c) ascii;
          joined = str_join ''_'' (split_ws spaced);
          kept = filter filename_safe_char joined
      in strip_chars {CHR ''.'', CHR ''_''} kept)"

section \<open>posixpath: operations on path strings\<close>

definition os_path_join :: "string \<Rightarrow> string \<Rightarrow> string" where
  \<comment> \<open>\<open>os.path.join(a, b)\<close>: an absolute \<open>b\<close> replaces \<open>a\<close>\<close>
  "os_path_join a b =
     (if prefix ''/'' b then b
      else if a = [] \<or> last a = CHR ''/'' then a @ b
      else a @ ''/'' @ b)"

definition os_path_basename :: "string \<Rightarrow> string" where
  \<comment> \<open>what follows the last slash\<close>
  "os_path_basename p = rev (takeWhile (\<lambda>c. c \<noteq> CHR ''/'') (rev p))"

definition os_path_dirname :: "string \<Rightarrow> string" where
  \<comment> \<open>what comes before the basename, without its trailing slashes unless it is all
      slashes\<close>
  "os_path_dirname p =
     (let head = rev (dropWhile (\<lambda>c. c \<noteq> CHR ''/'') (rev p))
      in if head \<noteq> [] \<and> \<not> (\<forall>c \<in> set head. c = CHR ''/'')
         then rev (lstrip_chars {CHR ''/''} (rev head)) else head)"

definition os_path_splitext :: "string \<Rightarrow> string \<times> string" where
  \<comment> \<open>the extension starts at the last dot of the basename; the dots a basename begins
      with do not count\<close>
  "os_path_splitext p =
     (let name = os_path_basename p;
          ext = rev (takeWhile (\<lambda>c. c \<noteq> CHR ''.'') (rev name));
          stem = take (length name - length ext - 1) name
      in if CHR ''.'' \<in> set name \<and> (\<exists>c \<in> set stem. c \<noteq> CHR ''.'')
         then (take (length p - length ext - 1) p, CHR ''.'' # ext)
         else (p, []))"

fun norm_comps :: "bool \<Rightarrow> string list \<Rightarrow> string list \<Rightarrow> string list" where
  \<comment> \<open>the loop of \<open>posixpath.normpath\<close> over the components, \<open>acc\<close> its \<open>new_comps\<close>\<close>
  "norm_comps rooted acc [] = acc"
| "norm_comps rooted acc (seg # segs) =
     (if seg = [] \<or> seg = ''.'' then norm_comps rooted acc segs
      else if seg \<noteq> ''..'' \<or> (\<not> rooted \<and> acc = []) \<or> (acc \<noteq> [] \<and> last acc = ''..'')
      then norm_comps rooted (acc @ [seg]) segs
      else if acc \<noteq> [] then norm_comps rooted (butlast acc) segs
      else norm_comps rooted acc segs)"

definition normpath :: "string \<Rightarrow> string" where
  "normpath p =
     (if p = [] then ''.''
      else
        let initial_slashes =
              (if prefix ''/'' p
               then (if prefix ''//'' p \<and> \<not> prefix ''///'' p then 2 else 1 :: nat)
               else 0);
            comps = norm_comps (initial_slashes \<noteq> 0) [] (split_on CHR ''/'' p);
            joined = replicate initial_slashes CHR ''/'' @ str_join ''/'' comps
        in if joined = [] then ''.'' else joined)"

section \<open>The file system\<close>

text \<open>
  The state the service works on is the file system of its container. A node is a regular
  file, with its bytes and its time of last modification, or a directory; the file system
  lists each node under its canonical path, the names from the root down. The root
  directory always exists and has no entry of its own (nothing in \<open>app.py\<close> reads its
  attributes). There are no symbolic links, no permissions and no limits on names or space
  in the model: a system call fails only for a missing name, or a file where a directory
  is needed, or a directory where a file is needed.
\<close>

type_synonym path = "string list"

datatype node = File string nat | Dir nat

type_synonym filesystem = "(path \<times> node) list"

datatype py_exn =
  FileNotFoundError | FileExistsError | NotADirectoryError | IsADirectoryError | NotFound
  | AttributeError

definition node_at :: "filesystem \<Rightarrow> path \<Rightarrow> node option" where
  "node_at fs p = (if p = [] then Some (Dir 0) else map_of fs p)"

definition is_dir :: "filesystem \<Rightarrow> path \<Rightarrow> bool" where
  "is_dir fs p = (case node_at fs p of Some (Dir _) \<Rightarrow> True | _ \<Rightarrow> False)"

definition enter :: "path \<Rightarrow> string \<Rightarrow> path" where
  \<comment> \<open>one component of a path name, looked up in the directory \<open>cur\<close>: the empty
      component and \<open>.\<close> stay, \<open>..\<close> is the parent (the root is its own parent)\<close>
  "enter cur s =
     (if s = [] \<or> s = ''.'' then cur else if s = ''..'' then butlast cur else cur @ [s])"

fun walk :: "filesystem \<Rightarrow> path \<Rightarrow> string list \<Rightarrow> path option" where
  \<comment> \<open>path resolution: every component is looked up in a directory\<close>
  "walk fs cur [] = Some cur"
| "walk fs cur (s # ss) = (if is_dir fs cur then walk fs (enter cur s) ss else None)"

definition resolve :: "filesystem \<Rightarrow> string \<Rightarrow> path option" where
  \<comment> \<open>the canonical path of a path name; the path names of \<open>app.py\<close> are absolute, and
      the working directory is taken to be the root\<close>
  "resolve fs p = (if p = [] then None else walk fs [] (split_on CHR ''/'' p))"

definition stat :: "filesystem \<Rightarrow> string \<Rightarrow> node option" where
  "stat fs p = (case resolve fs p of None \<Rightarrow> None | Some c \<Rightarrow> node_at fs c)"

definition os_path_exists :: "filesystem \<Rightarrow> string \<Rightarrow> bool" where
  "os_path_exists fs p = (stat fs p \<noteq> None)"

definition os_path_isdir :: "filesystem \<Rightarrow> string \<Rightarrow> bool" where
  "os_path_isdir fs p = (case stat fs p of Some (Dir _) \<Rightarrow> True | _ \<Rightarrow> False)"

definition os_path_isfile :: "filesystem \<Rightarrow> string \<Rightarrow> bool" where
  "os_path_isfile fs p = (case stat fs p of Some (File _ _) \<Rightarrow> True | _ \<Rightarrow> False)"

definition os_path_getsize :: "filesystem \<Rightarrow> string \<Rightarrow> py_exn + nat" where
  \<comment> \<open>a directory's own size is that of one block\<close>
  "os_path_getsize fs p =
     (case stat fs p of
        None \<Rightarrow> Inl FileNotFoundError
      | Some (File bytes _) \<Rightarrow> Inr (length bytes)
      | Some (Dir _) \<Rightarrow> Inr 4096)"

definition os_path_getmtime :: "filesystem \<Rightarrow> string \<Rightarrow> py_exn + nat" where
  "os_path_getmtime fs p =
     (case stat fs p of
        None \<Rightarrow> Inl FileNotFoundError
      | Some (File _ t) \<Rightarrow> Inr t
      | Some (Dir t) \<Rightarrow> Inr t)"

definition children :: "filesystem \<Rightarrow> path \<Rightarrow> (string \<times> node) list" where
  \<comment> \<open>the entries of the directory \<open>d\<close>, in the order the file system enumerates them\<close>
  "children fs d = map (\<lambda>(q, n). (last q, n)) (filter (\<lambda>(q, n). q \<noteq> [] \<and> butlast q = d) fs)"

definition os_listdir :: "filesystem \<Rightarrow> string \<Rightarrow> py_exn + string list" where
  "os_listdir fs p =
     (case resolve fs p of
        None \<Rightarrow> Inl FileNotFoundError
      | Some d \<Rightarrow>
          (case node_at fs d of
             None \<Rightarrow> Inl FileNotFoundError
           | Some (File _ _) \<Rightarrow> Inl NotADirectoryError
           | Some (Dir _) \<Rightarrow> Inr (map fst (children fs d))))"

definition touch :: "nat \<Rightarrow> path \<Rightarrow> filesystem \<Rightarrow> filesystem" where
  \<comment> \<open>a directory is modified when an entry is added to it\<close>
  "touch clk d fs =
     (case map_of fs d of Some (Dir _) \<Rightarrow> AList.update d (Dir clk) fs | _ \<Rightarrow> fs)"

definition create_entry :: "nat \<Rightarrow> path \<Rightarrow> node \<Rightarrow> filesystem \<Rightarrow> filesystem" where
  "create_entry clk p n fs = AList.update p n (touch clk (butlast p) fs)"

fun makedirs_walk ::
  "nat \<Rightarrow> filesystem \<Rightarrow> path \<Rightarrow> string list \<Rightarrow> filesystem \<times> py_exn option" where
  "makedirs_walk clk fs cur [] = (fs, None)"
| "makedirs_walk clk fs cur (s # ss) =
     (if s = [] \<or> s = ''.'' \<or> s = ''..'' then makedirs_walk clk fs (enter cur s) ss
      else
        (case node_at fs (cur @ [s]) of
           None \<Rightarrow> makedirs_walk clk (create_entry clk (cur @ [s]) (Dir clk) fs) (cur @ [s]) ss
         | Some (Dir _) \<Rightarrow> makedirs_walk clk fs (cur @ [s]) ss
         | Some (File _ _) \<Rightarrow>
             (fs, Some (if ss = [] then FileExistsError else NotADirectoryError))))"

definition os_makedirs :: "nat \<Rightarrow> filesystem \<Rightarrow> string \<Rightarrow> filesystem \<times> py_exn option" where
  \<comment> \<open>\<open>os.makedirs(p, exist_ok=True)\<close> at the time \<open>clk\<close>: the components are visited from
      the root; a missing one is created, a directory is entered, and a regular file on
      the way raises. What was created before the exception stays.\<close>
  "os_makedirs clk fs p =
     (if p = [] then (fs, Some FileNotFoundError)
      else makedirs_walk clk fs [] (split_on CHR ''/'' p))"

definition file_save :: "nat \<Rightarrow> filesystem \<Rightarrow> string \<Rightarrow> string \<Rightarrow> filesystem \<times> py_exn option" where
  \<comment> \<open>werkzeug's \<open>FileStorage.save(dst)\<close>: \<open>open(dst, "wb")\<close> and a copy of the stream\<close>
  "file_save clk fs dst bytes =
     (let comps = split_on CHR ''/'' dst; name = last comps in
      if dst = [] then (fs, Some FileNotFoundError)
      else
        (case walk fs [] (butlast comps) of
           None \<Rightarrow> (fs, Some NotADirectoryError)
         | Some d \<Rightarrow>
             if \<not> is_dir fs d then
               (fs, Some (if node_at fs d = None then FileNotFoundError else NotADirectoryError))
             else if name = [] \<or> name = ''.'' \<or> name = ''..'' then (fs, Some IsADirectoryError)
             else
               (case node_at fs (d @ [name]) of
                  None \<Rightarrow> (create_entry clk (d @ [name]) (File bytes clk) fs, None)
                | Some (File _ _) \<Rightarrow> (AList.update (d @ [name]) (File bytes clk) fs, None)
                | Some (Dir _) \<Rightarrow> (fs, Some IsADirectoryError))))"

definition safe_join :: "string \<Rightarrow> string \<Rightarrow> string option" where
  \<comment> \<open>werkzeug's \<open>safe_join\<close> of a directory and one untrusted path name\<close>
  "safe_join directory filename =
     (let directory = (if directory = [] then ''.'' else directory);
          filename = (if filename \<noteq> [] then normpath filename else filename)
      in if prefix ''/'' filename \<or> filename = ''..'' \<or> prefix ''../'' filename then None
         else Some (os_path_join directory filename))"

definition send_from_directory :: "filesystem \<Rightarrow> string \<Rightarrow> string \<Rightarrow> py_exn + string" where
  \<comment> \<open>the body of the response: the bytes of the regular file, or \<open>NotFound\<close> raised\<close>
  "send_from_directory fs directory p =
     (case safe_join directory p of
        None \<Rightarrow> Inl NotFound
      | Some full \<Rightarrow>
          (case stat fs full of
             Some (File bytes _) \<Rightarrow> Inr bytes
           | _ \<Rightarrow> Inl NotFound))"

section \<open>The clock\<close>

record datetime =
  dt_year :: nat
  dt_month :: nat
  dt_day :: nat
  dt_hour :: nat
  dt_minute :: nat
  dt_second :: nat

definition digit :: "nat \<Rightarrow> char" where
  "digit n = ''0123456789'' ! (n mod 10)"

definition pad2 :: "nat \<Rightarrow> string" where
  "pad2 n = [digit (n div 10), digit n]"

definition strftime_stamp :: "datetime \<Rightarrow> string" where
  \<comment> \<open>\<open>now.strftime('%Y%m%d_%H%M%S')\<close>, for a year of four digits\<close>
  "strftime_stamp now =
     pad2 (dt_year now div 100) @ pad2 (dt_year now) @ pad2 (dt_month now) @ pad2 (dt_day now)
     @ ''_'' @ pad2 (dt_hour now) @ pad2 (dt_minute now) @ pad2 (dt_second now)"

section \<open>The service\<close>

text \<open>
  Every handler of \<open>app.py\<close> takes the file system and returns it with the response. A
  response is the JSON body of an error with its status and code, or the data of a success
  (status 200). The messages for people and the times in ISO format are left out of the
  responses. \<open>now\<close> is the wall clock of a request, read by \<open>datetime.now()\<close>, and \<open>clk\<close>
  the time the file system stamps on what the request modifies.
\<close>

record upload_form =
  form_file :: "(string \<times> string) option"
  form_path :: "string option"
  form_filename :: "string option"

record list_item =
  item_name :: string
  item_type :: string
  item_size :: nat
  item_modified_time :: nat

datatype json = JString string | JOther

datatype response =
    ErrorJson nat string
  | Uploaded string string string nat
  | FileBody string
  | FolderCreated string string
  | Listing string "list_item list" nat

definition startup :: "nat \<Rightarrow> filesystem \<Rightarrow> filesystem \<times> py_exn option" where
  \<comment> \<open>the module's own \<open>os.makedirs(UPLOAD_FOLDER, exist_ok=True)\<close>\<close>
  "startup clk fs = os_makedirs clk fs UPLOAD_FOLDER"

definition create_directory ::
  "nat \<Rightarrow> filesystem \<Rightarrow> string \<Rightarrow> filesystem \<times> (py_exn + string)" where
  "create_directory clk fs p =
     (let full_path = os_path_join UPLOAD_FOLDER (strip_slash p);
          (fs', raised) = os_makedirs clk fs full_path
      in (fs', case raised of None \<Rightarrow> Inr full_path | Some e \<Rightarrow> Inl e))"

definition stamped :: "datetime \<Rightarrow> string \<Rightarrow> string" where
  \<comment> \<open>the new name of an upload whose target exists\<close>
  "stamped now filename =
     (let (name, ext) = os_path_splitext filename
      in name @ ''_'' @ strftime_stamp now @ ext)"

definition choose_filename :: "string \<Rightarrow> string \<Rightarrow> string" where
  \<comment> \<open>the block of \<open>upload_file\<close> that handles the file name (lines 92 to 99): the custom
      name, sanitised, with the lowercased extension of the upload, or else the uploaded
      name, sanitised\<close>
  "choose_filename file_filename custom_filename =
     (if custom_filename \<noteq> []
      then secure_filename custom_filename @ ''.'' @ str_lower (rsplit1_dot file_filename ! 1)
      else secure_filename file_filename)"

definition make_save_directory ::
  "nat \<Rightarrow> filesystem \<Rightarrow> string \<Rightarrow> filesystem \<times> (py_exn + string)" where
  \<comment> \<open>the block of \<open>upload_file\<close> that makes the directory to save in (lines 101 to
      105)\<close>
  "make_save_directory clk fs upload_path =
     (if upload_path \<noteq> [] then create_directory clk fs upload_path
      else (fs, Inr UPLOAD_FOLDER))"

definition store_upload ::
  "datetime \<Rightarrow> nat \<Rightarrow> filesystem \<Rightarrow> string \<Rightarrow> string \<Rightarrow> string \<Rightarrow> string
     \<Rightarrow> filesystem \<times> response" where
  \<comment> \<open>the rest of \<open>upload_file\<close> once the directory is there (lines 107 to 136): the name
      is stamped when the target exists, the bytes are saved, and the response is built\<close>
  "store_upload now clk fs upload_path save_directory filename0 bytes =
     (let filename =
            (if os_path_exists fs (os_path_join save_directory filename0)
             then stamped now filename0 else filename0);
          file_path = os_path_join save_directory filename
      in case file_save clk fs file_path bytes of
           (fs', Some e) \<Rightarrow> (fs', ErrorJson 500 ''UPLOAD_ERROR'')
         | (fs', None) \<Rightarrow>
             (case os_path_getsize fs' file_path of
                Inl e \<Rightarrow> (fs', ErrorJson 500 ''UPLOAD_ERROR'')
              | Inr sz \<Rightarrow>
                  (fs',
                   if upload_path \<noteq> []
                   then Uploaded filename (upload_path @ ''/'' @ filename)
                          (''http://localhost:5000/files/'' @ upload_path @ ''/'' @ filename) sz
                   else Uploaded filename filename
                          (''http://localhost:5000/files/'' @ filename) sz)))"

definition upload_file ::
  "datetime \<Rightarrow> nat \<Rightarrow> filesystem \<Rightarrow> upload_form \<Rightarrow> filesystem \<times> response" where
  "upload_file now clk fs form =
     (case form_file form of
        None \<Rightarrow> (fs, ErrorJson 400 ''NO_FILE'')
      | Some (file_filename, bytes) \<Rightarrow>
          if file_filename = [] then (fs, ErrorJson 400 ''EMPTY_FILENAME'')
          else if \<not> allowed_file file_filename then (fs, ErrorJson 400 ''INVALID_FILE_TYPE'')
          else
            let upload_path = strip_slash (case form_path form of None \<Rightarrow> [] | Some p \<Rightarrow> p);
                custom_filename =
                  str_strip (case form_filename form of None \<Rightarrow> [] | Some n \<Rightarrow> n);
                filename0 = choose_filename file_filename custom_filename
            in case make_save_directory clk fs upload_path of
                 (fs1, Inl e) \<Rightarrow> (fs1, ErrorJson 500 ''UPLOAD_ERROR'')
               | (fs1, Inr save_directory) \<Rightarrow>
                   store_upload now clk fs1 upload_path save_directory filename0 bytes)"

definition download_file :: "filesystem \<Rightarrow> string \<Rightarrow> filesystem \<times> response" where
  "download_file fs filename =
     (if str_in ''..'' filename \<or> prefix ''/'' filename then (fs, ErrorJson 400 ''INVALID_PATH'')
      else
        let file_path = os_path_join UPLOAD_FOLDER filename in
        if \<not> os_path_exists fs file_path then (fs, ErrorJson 404 ''FILE_NOT_FOUND'')
        else
          (case send_from_directory fs (os_path_dirname file_path) (os_path_basename file_path) of
             Inl e \<Rightarrow> (fs, ErrorJson 500 ''ACCESS_ERROR'')
           | Inr bytes \<Rightarrow> (fs, FileBody bytes)))"

definition create_folder ::
  "nat \<Rightarrow> filesystem \<Rightarrow> (string \<rightharpoonup> json) option \<Rightarrow> filesystem \<times> response" where
  \<comment> \<open>\<open>data\<close> is the JSON object of the body, or \<open>None\<close> for the body \<open>null\<close>; a value of
      \<open>path\<close> that is not a string has no \<open>strip\<close>\<close>
  "create_folder clk fs data =
     (case (case data of None \<Rightarrow> None | Some obj \<Rightarrow> obj ''path'') of
        None \<Rightarrow> (fs, ErrorJson 400 ''MISSING_PATH'')
      | Some JOther \<Rightarrow> (fs, ErrorJson 500 ''CREATE_FOLDER_ERROR'')
      | Some (JString p) \<Rightarrow>
          let folder_path = strip_slash p in
          if folder_path = [] then (fs, ErrorJson 400 ''EMPTY_PATH'')
          else
            (case create_directory clk fs folder_path of
               (fs', Inl e) \<Rightarrow> (fs', ErrorJson 500 ''CREATE_FOLDER_ERROR'')
             | (fs', Inr full_path) \<Rightarrow> (fs', FolderCreated folder_path full_path)))"

fun list_items :: "filesystem \<Rightarrow> string \<Rightarrow> string list \<Rightarrow> py_exn + list_item list" where
  \<comment> \<open>the loop over \<open>os.listdir(target_path)\<close>\<close>
  "list_items fs target_path [] = Inr []"
| "list_items fs target_path (item # rest) =
     (let item_path = os_path_join target_path item;
          is_directory = os_path_isdir fs item_path
      in case (if is_directory then Inr 0 else os_path_getsize fs item_path) of
           Inl e \<Rightarrow> Inl e
         | Inr sz \<Rightarrow>
             (case os_path_getmtime fs item_path of
                Inl e \<Rightarrow> Inl e
              | Inr t \<Rightarrow>
                  (case list_items fs target_path rest of
                     Inl e \<Rightarrow> Inl e
                   | Inr items \<Rightarrow>
                       Inr (\<lparr>item_name = item,
                             item_type = (if is_directory then ''directory'' else ''file''),
                             item_size = sz,
                             item_modified_time = t\<rparr> # items))))"

definition list_files :: "filesystem \<Rightarrow> string \<Rightarrow> filesystem \<times> response" where
  "list_files fs folder_path =
     (let target_path = os_path_join UPLOAD_FOLDER (strip_slash folder_path) in
      if \<not> os_path_exists fs target_path then (fs, ErrorJson 404 ''PATH_NOT_FOUND'')
      else
        (case os_listdir fs target_path of
           Inl e \<Rightarrow> (fs, ErrorJson 500 ''LIST_ERROR'')
         | Inr names \<Rightarrow>
             (case list_items fs target_path names of
                Inl e \<Rightarrow> (fs, ErrorJson 500 ''LIST_ERROR'')
              | Inr items \<Rightarrow> (fs, Listing folder_path items (length items)))))"

section \<open>Auxiliary notions for the proofs\<close>

text \<open>The letters A to Z and a to z: what the extensions that are allowed are made of.\<close>

definition ascii_letter :: "char \<Rightarrow> bool" where
  "ascii_letter c = (let n = of_char c :: nat in (65 \<le> n \<and> n \<le> 90) \<or> (97 \<le> n \<and> n \<le> 122))"

text \<open>
  A clock and a file system for the examples: \<open>fresh\<close> is the disk of the container when
  the module has been loaded on an empty one.
\<close>

definition noon :: datetime where
  "noon = \<lparr>dt_year = 2025, dt_month = 1, dt_day = 2, dt_hour = 12, dt_minute = 0, dt_second = 0\<rparr>"

definition fresh :: filesystem where
  "fresh = [([''app''], Dir 0), ([''app'', ''files''], Dir 0)]"

text \<open>
  \<open>fs_le fs fs'\<close>: nothing of \<open>fs\<close> is lost in \<open>fs'\<close>; every directory is still a
  directory and every regular file has its bytes and its time. \<open>dir_chain fs p\<close>: the
  canonical path \<open>p\<close> and all its ancestors are directories.
\<close>

definition fs_le :: "filesystem \<Rightarrow> filesystem \<Rightarrow> bool" where
  "fs_le fs fs' =
     (\<forall>q. (is_dir fs q \<longrightarrow> is_dir fs' q) \<and>
          (\<forall>b t. node_at fs q = Some (File b t) \<longrightarrow> node_at fs' q = Some (File b t)))"

definition dir_chain :: "filesystem \<Rightarrow> path \<Rightarrow> bool" where
  "dir_chain fs p = (\<forall>k \<le> length p. is_dir fs (take k p))"

text \<open>
  A name that a directory can hold, and the file systems that are well formed: no path is
  listed twice and every component of a listed path is such a name.
\<close>

definition plain :: "string \<Rightarrow> bool" where
  "plain s = (s \<noteq> [] \<and> s \<noteq> ''.'' \<and> s \<noteq> ''..'' \<and> CHR ''/'' \<notin> set s)"

definition wf_fs :: "filesystem \<Rightarrow> bool" where
  "wf_fs fs = (distinct (map fst fs) \<and> (\<forall>p \<in> fst ` set fs. \<forall>s \<in> set p. plain s))"



text \<open>What a listing says of one entry of a directory.\<close>

definition listed_as :: "string \<times> node \<Rightarrow> list_item" where
  "listed_as e =
     (case e of
        (name, File bytes t) \<Rightarrow>
          \<lparr>item_name = name, item_type = ''file'', item_size = length bytes,
           item_modified_time = t\<rparr>
      | (name, Dir t) \<Rightarrow>
          \<lparr>item_name = name, item_type = ''directory'', item_size = 0,
           item_modified_time = t\<rparr>)"

definition two_dirs :: filesystem where
  \<comment> \<open>\<open>one_file\<close> after create-folder with the path \<open>a\<close> at time 7\<close>
  "two_dirs =
     [([''app''], Dir 0), ([''app'', ''files''], Dir 7),
      ([''app'', ''files'', ''x.pdf''], File ''abc'' 5), ([''app'', ''files'', ''a''], Dir 7)]"



definition x_form :: "string \<Rightarrow> upload_form" where
  \<comment> \<open>the upload of a file named \<open>x.pdf\<close> with the given bytes, no path, no custom name\<close>
  "x_form bytes = \<lparr>form_file = Some (''x.pdf'', bytes), form_path = None, form_filename = None\<rparr>"

definition noon1 :: datetime where
  \<comment> \<open>one second after \<open>noon\<close>\<close>
  "noon1 = \<lparr>dt_year = 2025, dt_month = 1, dt_day = 2, dt_hour = 12, dt_minute = 0, dt_second = 1\<rparr>"

definition stamp_taken :: filesystem where
  \<comment> \<open>\<open>one_file\<close> with a directory that has the name the stamp of \<open>noon\<close> gives\<close>
  "stamp_taken =
     [([''app''], Dir 0), ([''app'', ''files''], Dir 5),
      ([''app'', ''files'', ''x.pdf''], File ''abc'' 5),
      ([''app'', ''files'', ''x_20250102_120000.pdf''], Dir 5)]"

section \<open>Facts about the strings\<close>

lemma str_in_iff: "str_in sub s \<longleftrightarrow> (\<exists>a b. s = a @ sub @ b)"
proof (induction s)
  case Nil
  then show ?case by auto
next
  case (Cons c cs)
  show ?case
  proof
    assume "str_in sub (c # cs)"
    then consider "prefix sub (c # cs)" | "str_in sub cs" by auto
    then show "\<exists>a b. c # cs = a @ sub @ b"
    proof cases
      case 1
      then obtain b where "c # cs = sub @ b" by (auto simp: prefix_def)
      then have "c # cs = [] @ sub @ b" by simp
      then show ?thesis by blast
    next
      case 2
      with Cons.IH obtain a b where "cs = a @ sub @ b" by blast
      then have "c # cs = (c # a) @ sub @ b" by simp
      then show ?thesis by blast
    qed
  next
    assume "\<exists>a b. c # cs = a @ sub @ b"
    then obtain a b where ab: "c # cs = a @ sub @ b" by blast
    show "str_in sub (c # cs)"
    proof (cases a)
      case Nil
      with ab have "prefix sub (c # cs)" by (simp add: prefix_def)
      then show ?thesis by simp
    next
      case (Cons x a')
      with ab have "cs = a' @ sub @ b" by simp
      with Cons.IH have "str_in sub cs" by blast
      then show ?thesis by simp
    qed
  qed
qed

lemma split_on_not_Nil [simp]: "split_on sep s \<noteq> []"
  by (induction s) (auto split: list.splits)

lemma split_on_no_sep: "sep \<notin> set s \<Longrightarrow> split_on sep s = [s]"
  by (induction s) auto

lemma split_on_append: "split_on sep (xs @ sep # ys) = split_on sep xs @ split_on sep ys"
  by (induction xs) (auto split: list.splits)

lemma split_on_free: "w \<in> set (split_on sep s) \<Longrightarrow> sep \<notin> set w"
  by (induction s arbitrary: w) (auto split: list.splits if_splits)

lemma set_lstrip_chars: "set (lstrip_chars cs s) \<subseteq> set s"
  by (auto simp: lstrip_chars_def dest: set_dropWhileD)

lemma set_strip_chars: "set (strip_chars cs s) \<subseteq> set s"
  using set_lstrip_chars [of cs "rev (lstrip_chars cs s)"] set_lstrip_chars [of cs s]
  by (auto simp: strip_chars_def)

lemma lstrip_chars_hd: "lstrip_chars cs s \<noteq> [] \<Longrightarrow> hd (lstrip_chars cs s) \<notin> cs"
  unfolding lstrip_chars_def using hd_dropWhile by metis

lemma strip_chars_last: "strip_chars cs s \<noteq> [] \<Longrightarrow> last (strip_chars cs s) \<notin> cs"
  unfolding strip_chars_def
  using lstrip_chars_hd [of cs "rev (lstrip_chars cs s)"] by (simp add: last_rev)

lemma strip_chars_hd: "strip_chars cs s \<noteq> [] \<Longrightarrow> hd (strip_chars cs s) \<notin> cs"
proof -
  assume ne: "strip_chars cs s \<noteq> []"
  let ?t = "dropWhile (\<lambda>c. c \<in> cs) s"
  from ne have "?t \<noteq> []" by (cases "?t = []") (simp_all add: strip_chars_def lstrip_chars_def)
  then obtain c t' where t: "?t = c # t'" by (cases ?t) auto
  have c: "c \<notin> cs" using hd_dropWhile [of "\<lambda>c. c \<in> cs" s] t by auto
  have "dropWhile (\<lambda>c. c \<in> cs) (rev t' @ c # []) = dropWhile (\<lambda>c. c \<in> cs) (rev t') @ c # []"
    using c by (rule dropWhile_append3)
  then have "strip_chars cs s = c # rev (dropWhile (\<lambda>c. c \<in> cs) (rev t'))"
    by (simp add: strip_chars_def lstrip_chars_def t)
  with c show ?thesis by simp
qed

lemma strip_slash_ends:
  "strip_slash s \<noteq> [] \<Longrightarrow> hd (strip_slash s) \<noteq> CHR ''/'' \<and> last (strip_slash s) \<noteq> CHR ''/''"
  using strip_chars_hd [of "{CHR ''/''}" s] strip_chars_last [of "{CHR ''/''}" s]
  by (simp add: strip_slash_def)

lemma join_upload_folder:
  "\<not> prefix ''/'' p \<Longrightarrow> os_path_join UPLOAD_FOLDER p = ''/app/files/'' @ p"
  by (simp add: os_path_join_def UPLOAD_FOLDER_def)

lemma strip_slash_not_abs: "\<not> prefix ''/'' (strip_slash s)"
  using strip_slash_ends [of s] by (cases "strip_slash s") auto

lemma rsplit1_dot_ext:
  assumes "CHR ''.'' \<notin> set ext"
  shows "rsplit1_dot (stem @ ''.'' @ ext) ! 1 = ext"
proof -
  have "takeWhile (\<lambda>c. c \<noteq> CHR ''.'') (rev ext @ CHR ''.'' # rev stem)
          = takeWhile (\<lambda>c. c \<noteq> CHR ''.'') (rev ext)"
    by (rule takeWhile_tail) simp
  also have "\<dots> = rev ext" using assms by (auto simp: takeWhile_eq_all_conv)
  finally show ?thesis by (simp add: rsplit1_dot_def)
qed

lemma rsplit1_dot_decomp:
  assumes "CHR ''.'' \<in> set f"
  shows "\<exists>stem. f = stem @ ''.'' @ (rsplit1_dot f ! 1) \<and> CHR ''.'' \<notin> set (rsplit1_dot f ! 1)"
proof -
  let ?e = "takeWhile (\<lambda>c. c \<noteq> CHR ''.'') (rev f)"
  let ?d = "dropWhile (\<lambda>c. c \<noteq> CHR ''.'') (rev f)"
  have d: "?d \<noteq> []" using assms by (simp add: dropWhile_eq_Nil_conv)
  then have hd: "hd ?d = CHR ''.''" using hd_dropWhile [of "\<lambda>c. c \<noteq> CHR ''.''" "rev f"] by simp
  with d have dd: "?d = CHR ''.'' # tl ?d" by (cases ?d) auto
  have "rev f = ?e @ ?d" by simp
  then have "rev f = ?e @ CHR ''.'' # tl ?d" using dd by simp
  then have "rev (rev f) = rev (?e @ CHR ''.'' # tl ?d)" by simp
  then have "f = rev (tl ?d) @ ''.'' @ rev ?e" by simp
  moreover have "CHR ''.'' \<notin> set (rev ?e)" by (auto dest: set_takeWhileD)
  moreover have "rsplit1_dot f ! 1 = rev ?e" using assms by (simp add: rsplit1_dot_def)
  ultimately show ?thesis by metis
qed

lemma allowed_file_iff:
  "allowed_file f \<longleftrightarrow>
     (\<exists>stem ext. f = stem @ ''.'' @ ext \<and> CHR ''.'' \<notin> set ext \<and> str_lower ext \<in> ALLOWED_EXTENSIONS)"
proof
  assume a: "allowed_file f"
  then have "CHR ''.'' \<in> set f" by (simp add: allowed_file_def)
  from rsplit1_dot_decomp [OF this] a show "\<exists>stem ext. f = stem @ ''.'' @ ext \<and> CHR ''.'' \<notin> set ext \<and> str_lower ext \<in> ALLOWED_EXTENSIONS"
    by (auto simp: allowed_file_def)
next
  assume "\<exists>stem ext. f = stem @ ''.'' @ ext \<and> CHR ''.'' \<notin> set ext \<and> str_lower ext \<in> ALLOWED_EXTENSIONS"
  then obtain stem ext where f: "f = stem @ ''.'' @ ext" and e: "CHR ''.'' \<notin> set ext"
    and l: "str_lower ext \<in> ALLOWED_EXTENSIONS" by blast
  have "rsplit1_dot f ! 1 = ext" unfolding f using e by (rule rsplit1_dot_ext)
  with l f show "allowed_file f" by (simp add: allowed_file_def)
qed

lemma of_char_chr_lower:
  "(of_char (chr_lower c) :: nat) =
     (if (65 \<le> (of_char c :: nat) \<and> (of_char c :: nat) \<le> 90)
         \<or> (192 \<le> (of_char c :: nat) \<and> (of_char c :: nat) \<le> 222 \<and> (of_char c :: nat) \<noteq> 215)
      then of_char c + 32 else of_char c)"
  by (simp add: chr_lower_def Let_def)

lemma lower_letter_is_letter:
  assumes "97 \<le> (of_char (chr_lower c) :: nat)" and "(of_char (chr_lower c) :: nat) \<le> 122"
  shows "ascii_letter c"
  using assms unfolding of_char_chr_lower ascii_letter_def Let_def
  by (auto split: if_splits)

lemma allowed_extensions_lower:
  "x \<in> ALLOWED_EXTENSIONS \<Longrightarrow> d \<in> set x \<Longrightarrow> 97 \<le> (of_char d :: nat) \<and> (of_char d :: nat) \<le> 122"
  unfolding ALLOWED_EXTENSIONS_def by auto

lemma allowed_extensions_nonempty: "x \<in> ALLOWED_EXTENSIONS \<Longrightarrow> x \<noteq> []"
  unfolding ALLOWED_EXTENSIONS_def by auto

lemma allowed_ext_letters:
  assumes "str_lower e \<in> ALLOWED_EXTENSIONS"
  shows "e \<noteq> [] \<and> (\<forall>c \<in> set e. ascii_letter c)"
proof
  show "e \<noteq> []" using allowed_extensions_nonempty [OF assms] by (auto simp: str_lower_def)
  show "\<forall>c \<in> set e. ascii_letter c"
  proof
    fix c assume "c \<in> set e"
    then have "chr_lower c \<in> set (str_lower e)" by (simp add: str_lower_def)
    from allowed_extensions_lower [OF assms this] show "ascii_letter c"
      by (auto intro: lower_letter_is_letter)
  qed
qed

lemma ascii_letter_nfkd: "ascii_letter c \<Longrightarrow> nfkd_ascii c = [c]"
proof -
  assume "ascii_letter c"
  then have "(of_char c :: nat) < 128" by (auto simp: ascii_letter_def Let_def)
  then show ?thesis by (simp add: nfkd_ascii_def Let_def)
qed

lemma ascii_letter_safe: "ascii_letter c \<Longrightarrow> filename_safe_char c"
  unfolding ascii_letter_def filename_safe_char_def Let_def by blast

lemma ascii_letter_not_space: "ascii_letter c \<Longrightarrow> \<not> is_space c"
  by (auto simp add: ascii_letter_def is_space_def Let_def)

lemma ascii_letter_not_punct:
  "ascii_letter c \<Longrightarrow> c \<noteq> CHR ''/'' \<and> c \<noteq> CHR ''.'' \<and> c \<noteq> CHR ''_''"
  by (auto simp add: ascii_letter_def Let_def)

lemma split_ws_word:
  "w \<noteq> [] \<Longrightarrow> \<forall>c \<in> set w. \<not> is_space c \<Longrightarrow> split_ws w = [w]"
proof (induction w)
  case Nil
  then show ?case by simp
next
  case (Cons c cs)
  show ?case
  proof (cases cs)
    case Nil
    with Cons.prems show ?thesis by simp
  next
    case (Cons d ds)
    with Cons.prems Cons.IH have "split_ws cs = [cs]" by simp
    with Cons Cons.prems show ?thesis by simp
  qed
qed

lemma split_ws_last_word:
  assumes "w \<noteq> []" and "\<forall>c \<in> set w. \<not> is_space c"
  shows "\<exists>ws u. split_ws (xs @ w) = ws @ [u @ w]"
proof (induction xs)
  case Nil
  have "split_ws w = [] @ [[] @ w]" using split_ws_word [OF assms] by simp
  then show ?case by (metis append_Nil)
next
  case (Cons x xs)
  then obtain ws u where IH: "split_ws (xs @ w) = ws @ [u @ w]" by blast
  have ne: "xs @ w \<noteq> []" using assms by simp
  show ?case
  proof (cases "is_space x")
    case True
    with IH show ?thesis by auto
  next
    case False
    show ?thesis
    proof (cases "is_space (hd (xs @ w))")
      case True
      with False have "split_ws ((x # xs) @ w) = ([x] # ws) @ [u @ w]" using IH by simp
      then show ?thesis by blast
    next
      case nsp: False
      show ?thesis
      proof (cases ws)
        case Nil
        with IH False nsp ne assms(1) have "split_ws ((x # xs) @ w) = [] @ [(x # u) @ w]" by simp
        then show ?thesis by blast
      next
        case (Cons v vs)
        with IH False nsp ne assms(1) have "split_ws ((x # xs) @ w) = ((x # v) # vs) @ [u @ w]" by simp
        then show ?thesis by blast
      qed
    qed
  qed
qed

lemma str_join_Cons: "rest \<noteq> [] \<Longrightarrow> str_join sep (w # rest) = w @ sep @ str_join sep rest"
  by (cases rest) auto

lemma str_join_last: "\<exists>pre. str_join sep (ws @ [x]) = pre @ x"
proof (induction ws)
  case Nil
  then show ?case by simp
next
  case (Cons w ws)
  then obtain pre where "str_join sep (ws @ [x]) = pre @ x" by blast
  then have "str_join sep ((w # ws) @ [x]) = (w @ sep @ pre) @ x"
    by (simp add: str_join_Cons)
  then show ?case by blast
qed

lemma dropWhile_keeps_tail:
  assumes "e \<noteq> []" and "\<not> P (hd e)"
  shows "\<exists>pre. dropWhile P (xs @ e) = pre @ e"
proof (induction xs)
  case Nil
  from assms have "dropWhile P e = e" by (cases e) auto
  then show ?case by simp
next
  case (Cons x xs)
  then obtain pre where IH: "dropWhile P (xs @ e) = pre @ e" by blast
  show ?case
  proof (cases "P x")
    case True
    with IH show ?thesis by simp
  next
    case False
    then have "dropWhile P ((x # xs) @ e) = (x # xs) @ e" by simp
    then show ?thesis by blast
  qed
qed

lemma strip_chars_keeps_tail:
  assumes "e \<noteq> []" and "\<forall>c \<in> set e. c \<notin> cs"
  shows "\<exists>pre. strip_chars cs (xs @ e) = pre @ e"
proof -
  have "hd e \<notin> cs" using assms by (cases e) auto
  from dropWhile_keeps_tail [OF assms(1), of "\<lambda>c. c \<in> cs", OF this]
  obtain pre where l: "lstrip_chars cs (xs @ e) = pre @ e" by (auto simp: lstrip_chars_def)
  have "rev e \<noteq> []" and "hd (rev e) \<notin> cs" using assms by (auto simp: hd_rev)
  then have "dropWhile (\<lambda>c. c \<in> cs) (rev e @ rev pre) = rev e @ rev pre"
    by (cases "rev e") auto
  then have "strip_chars cs (xs @ e) = pre @ e"
    by (simp add: strip_chars_def l) (simp add: lstrip_chars_def)
  then show ?thesis by blast
qed

lemma letters_unchanged:
  assumes "\<forall>c \<in> set e. ascii_letter c"
  shows "concat (map nfkd_ascii e) = e"
    and "map (\<lambda>c. if c = CHR ''/'' then CHR '' '' else c) e = e"
    and "filter filename_safe_char e = e"
  using assms ascii_letter_not_punct
  by (induction e) (auto simp: ascii_letter_nfkd ascii_letter_safe)

lemma secure_filename_keeps_ext:
  assumes "allowed_file f"
  shows "\<exists>pre. secure_filename f = pre @ (rsplit1_dot f ! 1) \<and> rsplit1_dot f ! 1 \<noteq> []"
proof -
  define e where "e = rsplit1_dot f ! 1"
  from assms have dot: "CHR ''.'' \<in> set f" and low: "str_lower e \<in> ALLOWED_EXTENSIONS"
    by (simp_all add: allowed_file_def e_def)
  from rsplit1_dot_decomp [OF dot] obtain stem where f: "f = stem @ ''.'' @ e"
    unfolding e_def by blast
  from allowed_ext_letters [OF low] have ne: "e \<noteq> []" and letters: "\<forall>c \<in> set e. ascii_letter c"
    by auto
  note e1 = letters_unchanged(1) [OF letters]
  note e2 = letters_unchanged(2) [OF letters]
  have e3: "\<forall>c \<in> set e. \<not> is_space c" using letters ascii_letter_not_space by blast
  note e4 = letters_unchanged(3) [OF letters]
  have e5: "\<forall>c \<in> set e. c \<notin> {CHR ''.'', CHR ''_''}" using letters ascii_letter_not_punct by auto
  define A where "A = map (\<lambda>c. if c = CHR ''/'' then CHR '' '' else c) (concat (map nfkd_ascii stem))"
  have dotn: "nfkd_ascii CHR ''.'' = ''.''" by (simp add: nfkd_ascii_def)
  have "concat (map nfkd_ascii (stem @ ''.'' @ e)) = concat (map nfkd_ascii stem) @ ''.'' @ e"
    by (simp add: e1 dotn)
  then have spaced: "map (\<lambda>c. if c = CHR ''/'' then CHR '' '' else c) (concat (map nfkd_ascii (stem @ ''.'' @ e)))
      = A @ (''.'' @ e)"
    by (simp add: A_def e2)
  have w: "''.'' @ e \<noteq> []" "\<forall>c \<in> set (''.'' @ e). \<not> is_space c"
    using e3 by (auto simp: is_space_def)
  from split_ws_last_word [OF w, of A] obtain ws u where "split_ws (A @ (''.'' @ e)) = ws @ [u @ (''.'' @ e)]"
    by blast
  moreover from str_join_last [of "''_''" ws "u @ (''.'' @ e)"] obtain pre
    where "str_join ''_'' (ws @ [u @ (''.'' @ e)]) = pre @ u @ (''.'' @ e)" by auto
  ultimately have joined: "str_join ''_'' (split_ws (A @ (''.'' @ e))) = (pre @ u @ ''.'') @ e" by simp
  have kept: "filter filename_safe_char ((pre @ u @ ''.'') @ e) = filter filename_safe_char (pre @ u @ ''.'') @ e"
    using e4 by simp
  from strip_chars_keeps_tail [OF ne e5, of "filter filename_safe_char (pre @ u @ ''.'')"]
  obtain p where "strip_chars {CHR ''.'', CHR ''_''} (filter filename_safe_char (pre @ u @ ''.'') @ e) = p @ e"
    by blast
  then have "secure_filename (stem @ ''.'' @ e) = p @ e"
    unfolding secure_filename_def Let_def spaced joined kept by simp
  then have "secure_filename f = p @ e" using f by simp
  with ne show ?thesis unfolding e_def by blast
qed

lemma secure_filename_safe: "c \<in> set (secure_filename s) \<Longrightarrow> filename_safe_char c"
  using set_strip_chars [of "{CHR ''.'', CHR ''_''}"]
  by (fastforce simp: secure_filename_def Let_def)

lemma secure_filename_no_slash: "CHR ''/'' \<notin> set (secure_filename s)"
  using secure_filename_safe [of "CHR ''/''" s] by (auto simp: filename_safe_char_def)

section \<open>Facts about the file system\<close>

lemma node_at_update:
  "node_at (AList.update p n fs) q = (if q = p \<and> q \<noteq> [] then Some n else node_at fs q)"
  by (simp add: node_at_def update_conv')

lemma is_dir_root [simp]: "is_dir fs []"
  by (simp add: is_dir_def node_at_def)

lemma is_dir_iff: "is_dir fs q \<longleftrightarrow> (\<exists>t. node_at fs q = Some (Dir t))"
  by (auto simp: is_dir_def split: option.splits node.splits)

lemma node_at_touch:
  "node_at (touch clk d fs) q =
     (if q = d \<and> q \<noteq> [] \<and> is_dir fs q then Some (Dir clk) else node_at fs q)"
  by (auto simp: touch_def is_dir_def node_at_def update_conv' split: option.splits node.splits)

lemma is_dir_touch [simp]: "is_dir (touch clk d fs) q = is_dir fs q"
  by (auto simp: is_dir_iff node_at_touch)

lemma file_at_touch [simp]:
  "node_at (touch clk d fs) q = Some (File b t) \<longleftrightarrow> node_at fs q = Some (File b t)"
  by (auto simp: node_at_touch is_dir_iff)

lemma none_at_touch [simp]: "node_at (touch clk d fs) q = None \<longleftrightarrow> node_at fs q = None"
  by (auto simp: node_at_touch is_dir_iff)

lemma node_at_create_entry:
  "node_at (create_entry clk p n fs) q =
     (if q = p \<and> q \<noteq> [] then Some n else node_at (touch clk (butlast p) fs) q)"
  by (simp add: create_entry_def node_at_update)

lemma is_dir_create_dir:
  "is_dir (create_entry clk p (Dir c) fs) q \<longleftrightarrow> (q = p \<and> q \<noteq> []) \<or> is_dir fs q"
  using is_dir_touch [of clk "butlast p" fs q]
  by (auto simp: is_dir_iff node_at_create_entry)

lemma file_at_create_dir:
  "node_at (create_entry clk p (Dir c) fs) q = Some (File b t)
     \<longleftrightarrow> \<not> (q = p \<and> q \<noteq> []) \<and> node_at fs q = Some (File b t)"
  by (auto simp: node_at_create_entry)

lemma fs_le_refl [simp]: "fs_le fs fs"
  by (simp add: fs_le_def)

lemma fs_le_trans: "fs_le a b \<Longrightarrow> fs_le b c \<Longrightarrow> fs_le a c"
  by (simp add: fs_le_def)

lemma fs_le_create_dir: "node_at fs p = None \<Longrightarrow> fs_le fs (create_entry clk p (Dir c) fs)"
  by (auto simp: fs_le_def is_dir_create_dir file_at_create_dir)

lemma walk_append:
  "walk fs cur (xs @ ys) = (case walk fs cur xs of None \<Rightarrow> None | Some c \<Rightarrow> walk fs c ys)"
  by (induction xs arbitrary: cur) auto

lemma walk_mono:
  "\<forall>q. is_dir fs q \<longrightarrow> is_dir fs' q \<Longrightarrow> walk fs cur ss = Some c \<Longrightarrow> walk fs' cur ss = Some c"
  by (induction ss arbitrary: cur) (auto split: if_splits)

lemma walk_start_dir: "walk fs cur ss = Some c \<Longrightarrow> is_dir fs c \<Longrightarrow> is_dir fs cur"
  by (cases ss) (auto split: if_splits)


lemma makedirs_walk_le: "makedirs_walk clk fs cur ss = (fs', r) \<Longrightarrow> fs_le fs fs'"
proof (induction ss arbitrary: fs cur)
  case Nil
  then show ?case by simp
next
  case (Cons s ss)
  show ?case
  proof (cases "s = [] \<or> s = ''.'' \<or> s = ''..''")
    case True
    with Cons.prems have "makedirs_walk clk fs (enter cur s) ss = (fs', r)" by simp
    then show ?thesis by (rule Cons.IH)
  next
    case False
    show ?thesis
    proof (cases "node_at fs (cur @ [s])")
      case None
      with False Cons.prems
      have "makedirs_walk clk (create_entry clk (cur @ [s]) (Dir clk) fs) (cur @ [s]) ss = (fs', r)"
        by simp
      from Cons.IH [OF this] fs_le_create_dir [OF None] show ?thesis
        by (blast intro: fs_le_trans)
    next
      case (Some n)
      show ?thesis
      proof (cases n)
        case (File b t)
        with Some False Cons.prems show ?thesis by simp
      next
        case (Dir t)
        with Some False Cons.prems have "makedirs_walk clk fs (cur @ [s]) ss = (fs', r)" by simp
        then show ?thesis by (rule Cons.IH)
      qed
    qed
  qed
qed

lemma makedirs_walk_idem:
  "walk fs cur ss = Some c \<Longrightarrow> is_dir fs c \<Longrightarrow> makedirs_walk clk fs cur ss = (fs, None)"
proof (induction ss arbitrary: cur)
  case Nil
  then show ?case by simp
next
  case (Cons s ss)
  from Cons.prems have w: "walk fs (enter cur s) ss = Some c" by (simp split: if_splits)
  from Cons.IH [OF w Cons.prems(2)] have IH: "makedirs_walk clk fs (enter cur s) ss = (fs, None)" .
  show ?case
  proof (cases "s = [] \<or> s = ''.'' \<or> s = ''..''")
    case True
    with IH show ?thesis by simp
  next
    case False
    then have e: "enter cur s = cur @ [s]" by (simp add: enter_def)
    from walk_start_dir [OF w Cons.prems(2)] e obtain t where "node_at fs (cur @ [s]) = Some (Dir t)"
      by (auto simp: is_dir_iff)
    with False IH e show ?thesis by simp
  qed
qed

lemma dir_chain_root [simp]: "dir_chain fs []"
  by (simp add: dir_chain_def)

lemma dir_chain_butlast: "dir_chain fs p \<Longrightarrow> dir_chain fs (butlast p)"
proof -
  assume a: "dir_chain fs p"
  show ?thesis unfolding dir_chain_def
  proof (intro allI impI)
    fix k assume "k \<le> length (butlast p)"
    then have "take k (butlast p) = take k p" and "k \<le> length p"
      by (simp_all add: take_butlast butlast_conv_take)
    with a show "is_dir fs (take k (butlast p))" by (simp add: dir_chain_def)
  qed
qed

lemma dir_chain_snoc: "dir_chain fs p \<Longrightarrow> is_dir fs (p @ [s]) \<Longrightarrow> dir_chain fs (p @ [s])"
  unfolding dir_chain_def
  by (auto simp: le_Suc_eq)

lemma dir_chain_last: "dir_chain fs p \<Longrightarrow> is_dir fs p"
  unfolding dir_chain_def by (metis order_refl take_all)

lemma dir_chain_le: "fs_le fs fs' \<Longrightarrow> dir_chain fs p \<Longrightarrow> dir_chain fs' p"
  by (simp add: dir_chain_def fs_le_def)

lemma dir_chain_enter_special:
  "s = [] \<or> s = ''.'' \<or> s = ''..'' \<Longrightarrow> dir_chain fs cur \<Longrightarrow> dir_chain fs (enter cur s)"
  by (auto simp: enter_def dir_chain_butlast)

lemma makedirs_walk_dirs:
  assumes "makedirs_walk clk fs cur ss = (fs', None)" and "dir_chain fs cur"
  shows "walk fs' cur ss = Some (foldl enter cur ss) \<and> dir_chain fs' (foldl enter cur ss)"
  using assms
proof (induction ss arbitrary: fs cur)
  case Nil
  then show ?case by simp
next
  case (Cons s ss)
  from makedirs_walk_le [OF Cons.prems(1)] have le: "fs_le fs fs'" .
  from dir_chain_last [OF Cons.prems(2)] le have cur': "is_dir fs' cur" by (simp add: fs_le_def)
  show ?case
  proof (cases "s = [] \<or> s = ''.'' \<or> s = ''..''")
    case True
    with Cons.prems have m: "makedirs_walk clk fs (enter cur s) ss = (fs', None)" by simp
    from Cons.IH [OF m dir_chain_enter_special [OF True Cons.prems(2)]] cur'
    show ?thesis by simp
  next
    case False
    then have e: "enter cur s = cur @ [s]" by (simp add: enter_def)
    show ?thesis
    proof (cases "node_at fs (cur @ [s])")
      case None
      let ?fs1 = "create_entry clk (cur @ [s]) (Dir clk) fs"
      from None False Cons.prems
      have m: "makedirs_walk clk ?fs1 (cur @ [s]) ss = (fs', None)" by simp
      have "dir_chain ?fs1 cur" using fs_le_create_dir [OF None] Cons.prems(2) by (rule dir_chain_le)
      moreover have "is_dir ?fs1 (cur @ [s])" by (simp add: is_dir_create_dir)
      ultimately have "dir_chain ?fs1 (cur @ [s])" by (rule dir_chain_snoc)
      from Cons.IH [OF m this] cur' e show ?thesis by simp
    next
      case (Some n)
      show ?thesis
      proof (cases n)
        case (File b t)
        with Some False Cons.prems show ?thesis by simp
      next
        case (Dir t)
        with Some False Cons.prems have m: "makedirs_walk clk fs (cur @ [s]) ss = (fs', None)" by simp
        have "is_dir fs (cur @ [s])" using Some Dir by (simp add: is_dir_iff)
        with Cons.prems(2) have "dir_chain fs (cur @ [s])" by (rule dir_chain_snoc)
        from Cons.IH [OF m this] cur' e show ?thesis by simp
      qed
    qed
  qed
qed





lemma os_path_isdir_iff:
  "os_path_isdir fs p \<longleftrightarrow> (\<exists>c. resolve fs p = Some c \<and> is_dir fs c)"
  by (auto simp: os_path_isdir_def stat_def is_dir_iff split: option.splits node.splits)

lemma os_makedirs_existing:
  "os_path_isdir fs p \<Longrightarrow> os_makedirs clk fs p = (fs, None)"
  by (auto simp: os_path_isdir_iff os_makedirs_def resolve_def makedirs_walk_idem split: if_splits)





lemma create_directory_path:
  "os_path_join UPLOAD_FOLDER (strip_slash p) = ''/app/files/'' @ strip_slash p"
  using strip_slash_not_abs by (rule join_upload_folder)

lemma enter_plain: "plain s \<Longrightarrow> enter cur s = cur @ [s]"
  by (simp add: enter_def plain_def)

lemma plain_not_abs: "plain s \<Longrightarrow> \<not> prefix ''/'' s"
  by (cases s) (auto simp: plain_def)

lemma plain_split: "plain s \<Longrightarrow> split_on CHR ''/'' s = [s]"
  by (simp add: plain_def split_on_no_sep)

lemma split_on_join_child:
  assumes "plain name" and "t \<noteq> []"
  shows "\<exists>xs. split_on CHR ''/'' (os_path_join t name) = xs @ [name]
            \<and> (split_on CHR ''/'' t = xs \<or> split_on CHR ''/'' t = xs @ [[]])"
proof (cases "last t = CHR ''/''")
  case True
  with assms(2) have t: "t = butlast t @ ''/''" by (metis append_butlast_last_id)
  have "os_path_join t name = butlast t @ CHR ''/'' # name"
    using True assms plain_not_abs t by (simp add: os_path_join_def)
  then have "split_on CHR ''/'' (os_path_join t name) = split_on CHR ''/'' (butlast t) @ [name]"
    using plain_split [OF assms(1)] by (simp add: split_on_append)
  moreover have "split_on CHR ''/'' t = split_on CHR ''/'' (butlast t) @ [[]]"
    using split_on_append [of "CHR ''/''" "butlast t" "[]"] t by simp
  ultimately show ?thesis by blast
next
  case False
  then have "os_path_join t name = t @ CHR ''/'' # name"
    using assms plain_not_abs by (simp add: os_path_join_def)
  then have "split_on CHR ''/'' (os_path_join t name) = split_on CHR ''/'' t @ [name]"
    using plain_split [OF assms(1)] by (simp add: split_on_append)
  then show ?thesis by blast
qed

lemma walk_snoc_empty: "walk fs cur (xs @ [[]]) = Some d \<Longrightarrow> walk fs cur xs = Some d \<and> is_dir fs d"
  by (auto simp: walk_append enter_def split: option.splits if_splits)

lemma os_path_join_not_Nil: "t \<noteq> [] \<Longrightarrow> os_path_join t name \<noteq> []"
  by (auto simp: os_path_join_def)

lemma resolve_join_child:
  assumes "resolve fs t = Some d" and "is_dir fs d" and "plain name"
  shows "resolve fs (os_path_join t name) = Some (d @ [name])"
proof -
  from assms(1) have t: "t \<noteq> []" by (auto simp: resolve_def split: if_splits)
  with assms(1) have w: "walk fs [] (split_on CHR ''/'' t) = Some d" by (simp add: resolve_def)
  from split_on_join_child [OF assms(3) t] obtain xs
    where j: "split_on CHR ''/'' (os_path_join t name) = xs @ [name]"
      and x: "split_on CHR ''/'' t = xs \<or> split_on CHR ''/'' t = xs @ [[]]" by blast
  have wx: "walk fs [] xs = Some d"
  proof (cases "split_on CHR ''/'' t = xs")
    case True
    with w show ?thesis by simp
  next
    case False
    with x have "split_on CHR ''/'' t = xs @ [[]]" by simp
    with w have "walk fs [] (xs @ [[]]) = Some d" by simp
    then show ?thesis by (rule walk_snoc_empty [THEN conjunct1])
  qed
  have "walk fs d [name] = Some (d @ [name])"
    using assms(2,3) by (simp add: enter_plain)
  with wx have "walk fs [] (xs @ [name]) = Some (d @ [name])"
    by (simp add: walk_append)
  with j os_path_join_not_Nil [OF t] show ?thesis by (simp add: resolve_def)
qed

lemma list_items_children:
  assumes "resolve fs target = Some d" and "is_dir fs d"
    and "\<forall>e \<in> set cs. plain (fst e) \<and> node_at fs (d @ [fst e]) = Some (snd e)"
  shows "list_items fs target (map fst cs) = Inr (map listed_as cs)"
  using assms(3)
proof (induction cs)
  case Nil
  then show ?case by simp
next
  case (Cons e cs)
  obtain name n where e: "e = (name, n)" by (cases e)
  from Cons.prems e have p: "plain name" and n: "node_at fs (d @ [name]) = Some n" by auto
  from resolve_join_child [OF assms(1,2) p] n
  have st: "stat fs (os_path_join target name) = Some n" by (simp add: stat_def)
  from Cons have IH: "list_items fs target (map fst cs) = Inr (map listed_as cs)" by simp
  show ?case
    using st IH e
    by (cases n)
      (simp_all add: os_path_isdir_def os_path_getsize_def os_path_getmtime_def listed_as_def)
qed

lemma children_iff:
  assumes "wf_fs fs"
  shows "(name, n) \<in> set (children fs d) \<longleftrightarrow> node_at fs (d @ [name]) = Some n"
proof
  assume "(name, n) \<in> set (children fs d)"
  then obtain q where q: "(q, n) \<in> set fs" "q \<noteq> []" "butlast q = d" "name = last q"
    by (auto simp: children_def)
  then have "q = d @ [name]" by (metis append_butlast_last_id)
  moreover from assms q(1) have "map_of fs q = Some n" by (simp add: wf_fs_def)
  ultimately show "node_at fs (d @ [name]) = Some n" by (simp add: node_at_def)
next
  assume "node_at fs (d @ [name]) = Some n"
  then have "map_of fs (d @ [name]) = Some n" by (simp add: node_at_def)
  then have "(d @ [name], n) \<in> set fs" by (rule map_of_SomeD)
  then show "(name, n) \<in> set (children fs d)" by (force simp: children_def)
qed

lemma children_plain:
  assumes "wf_fs fs" and "(name, n) \<in> set (children fs d)"
  shows "plain name"
proof -
  from assms(2) obtain q where q: "(q, n) \<in> set fs" "q \<noteq> []" "name = last q"
    by (auto simp: children_def)
  then have "q \<in> fst ` set fs" and "last q \<in> set q" by (auto simp: rev_image_eqI)
  with assms(1) q(3) show ?thesis by (auto simp: wf_fs_def)
qed

lemma children_distinct:
  assumes "wf_fs fs"
  shows "distinct (map fst (children fs d))"
proof -
  let ?sel = "filter (\<lambda>(q, n). q \<noteq> [] \<and> butlast q = d) fs"
  from assms have dk: "distinct (map fst fs)" by (simp add: wf_fs_def)
  then have "distinct (map fst ?sel)" by (rule distinct_map_filter)
  moreover have "inj_on last (set (map fst ?sel))"
  proof (rule inj_onI)
    fix q q' assume "q \<in> set (map fst ?sel)" "q' \<in> set (map fst ?sel)" "last q = last q'"
    then have "q \<noteq> []" "q' \<noteq> []" "butlast q = butlast q'" "last q = last q'" by auto
    then show "q = q'" by (metis append_butlast_last_id)
  qed
  ultimately have "distinct (map last (map fst ?sel))"
    using distinct_map [of last "map fst ?sel"] by blast
  moreover have "map fst (children fs d) = map last (map fst ?sel)"
    by (simp add: children_def case_prod_beta comp_def)
  ultimately show ?thesis by simp
qed

lemma wf_update:
  assumes "wf_fs fs" and "\<forall>s \<in> set p. plain s"
  shows "wf_fs (AList.update p n fs)"
  using assms by (auto simp: wf_fs_def distinct_update dom_update)

lemma wf_touch: "wf_fs fs \<Longrightarrow> wf_fs (touch clk d fs)"
proof -
  assume w: "wf_fs fs"
  show ?thesis
  proof (cases "\<exists>t. map_of fs d = Some (Dir t)")
    case True
    then obtain t where "map_of fs d = Some (Dir t)" by blast
    then have "d \<in> fst ` set fs" by (metis map_of_SomeD fst_conv image_eqI)
    with w have "\<forall>s \<in> set d. plain s" by (auto simp: wf_fs_def)
    with w have "wf_fs (AList.update d (Dir clk) fs)" by (rule wf_update)
    with True show ?thesis by (auto simp: touch_def)
  next
    case False
    with w show ?thesis by (auto simp: touch_def split: option.splits node.splits)
  qed
qed

lemma wf_create_entry:
  "wf_fs fs \<Longrightarrow> \<forall>s \<in> set p. plain s \<Longrightarrow> wf_fs (create_entry clk p n fs)"
  by (simp add: create_entry_def wf_update wf_touch)

lemma enter_keeps_plain:
  assumes "\<forall>x \<in> set cur. plain x" and "CHR ''/'' \<notin> set s"
  shows "\<forall>x \<in> set (enter cur s). plain x"
  using assms by (auto simp: enter_def plain_def dest: in_set_butlastD)

lemma walk_plain:
  "\<forall>x \<in> set cur. plain x \<Longrightarrow> \<forall>s \<in> set ss. CHR ''/'' \<notin> set s \<Longrightarrow> walk fs cur ss = Some c
     \<Longrightarrow> \<forall>x \<in> set c. plain x"
proof (induction ss arbitrary: cur)
  case Nil
  then show ?case by simp
next
  case (Cons s ss)
  from Cons.prems have w: "walk fs (enter cur s) ss = Some c" by (simp split: if_splits)
  from Cons.prems have "\<forall>x \<in> set (enter cur s). plain x" using enter_keeps_plain [of cur s] by simp
  from Cons.IH [OF this _ w] Cons.prems(2) show ?case by simp
qed

lemma makedirs_walk_wf:
  "wf_fs fs \<Longrightarrow> \<forall>x \<in> set cur. plain x \<Longrightarrow> \<forall>s \<in> set ss. CHR ''/'' \<notin> set s
     \<Longrightarrow> wf_fs (fst (makedirs_walk clk fs cur ss))"
proof (induction ss arbitrary: fs cur)
  case Nil
  then show ?case by simp
next
  case (Cons s ss)
  from Cons.prems have e: "\<forall>x \<in> set (enter cur s). plain x" using enter_keeps_plain [of cur s] by simp
  from Cons.prems have t: "\<forall>s \<in> set ss. CHR ''/'' \<notin> set s" by simp
  show ?case
  proof (cases "s = [] \<or> s = ''.'' \<or> s = ''..''")
    case True
    with Cons.IH [OF Cons.prems(1) e t] show ?thesis by simp
  next
    case False
    then have en: "enter cur s = cur @ [s]" by (simp add: enter_def)
    show ?thesis
    proof (cases "node_at fs (cur @ [s])")
      case None
      have "wf_fs (create_entry clk (cur @ [s]) (Dir clk) fs)"
        using Cons.prems(1) e en by (simp add: wf_create_entry)
      from Cons.IH [OF this _ t] e en None False show ?thesis by simp
    next
      case (Some n)
      with Cons.IH [OF Cons.prems(1) _ t] e en False Cons.prems(1) show ?thesis
        by (cases n) simp_all
    qed
  qed
qed

lemma split_on_last_free: "CHR ''/'' \<notin> set (last (split_on CHR ''/'' p))"
  using split_on_free [of "last (split_on CHR ''/'' p)" "CHR ''/''" p] by simp

lemma wf_file_save: "wf_fs fs \<Longrightarrow> wf_fs (fst (file_save clk fs dst bytes))"
proof -
  assume w: "wf_fs fs"
  let ?comps = "split_on CHR ''/'' dst"
  let ?name = "last ?comps"
  have free: "\<forall>s \<in> set (butlast ?comps). CHR ''/'' \<notin> set s"
    by (auto dest: in_set_butlastD split_on_free)
  show ?thesis
  proof (cases "walk fs [] (butlast ?comps)")
    case None
    with w show ?thesis by (simp add: file_save_def Let_def)
  next
    case (Some d)
    from walk_plain [OF _ free Some] have d: "\<forall>x \<in> set d. plain x" by simp
    show ?thesis
    proof (cases "?name = [] \<or> ?name = ''.'' \<or> ?name = ''..''")
      case True
      with w Some show ?thesis by (simp add: file_save_def Let_def)
    next
      case False
      with split_on_last_free [of dst] have "plain ?name" by (simp add: plain_def)
      with d have "\<forall>x \<in> set (d @ [?name]). plain x" by simp
      with w have "wf_fs (create_entry clk (d @ [?name]) (File bytes clk) fs)"
        and "wf_fs (AList.update (d @ [?name]) (File bytes clk) fs)"
        by (simp_all add: wf_create_entry wf_update)
      with w Some show ?thesis
        by (simp add: file_save_def Let_def split: option.splits node.splits)
    qed
  qed
qed

lemma wf_os_makedirs: "wf_fs fs \<Longrightarrow> wf_fs (fst (os_makedirs clk fs p))"
proof -
  assume w: "wf_fs fs"
  have "\<forall>s \<in> set (split_on CHR ''/'' p). CHR ''/'' \<notin> set s" by (auto dest: split_on_free)
  from makedirs_walk_wf [OF w _ this, of "[]" clk] w show ?thesis
    by (simp add: os_makedirs_def)
qed

lemma wf_create_directory: "wf_fs fs \<Longrightarrow> wf_fs (fst (create_directory clk fs p))"
  using wf_os_makedirs [of fs clk "os_path_join UPLOAD_FOLDER (strip_slash p)"]
  by (cases "os_makedirs clk fs (os_path_join UPLOAD_FOLDER (strip_slash p))")
     (simp add: create_directory_def)

lemma wf_store_upload:
  "wf_fs fs \<Longrightarrow> wf_fs (fst (store_upload now clk fs up dir f0 bytes))"
proof -
  assume w: "wf_fs fs"
  have "fst (store_upload now clk fs up dir f0 bytes)
      = fst (file_save clk fs (os_path_join dir
          (if os_path_exists fs (os_path_join dir f0) then stamped now f0 else f0)) bytes)"
    by (simp add: store_upload_def Let_def split: prod.splits option.splits sum.splits)
  with wf_file_save [OF w] show ?thesis by simp
qed

lemma wf_fresh: "wf_fs fresh"
  by (simp add: wf_fs_def fresh_def plain_def)

lemma wf_upload_file: "wf_fs fs \<Longrightarrow> wf_fs (fst (upload_file now clk fs form))"
proof -
  assume w: "wf_fs fs"
  show ?thesis
  proof (cases "form_file form")
    case None
    with w show ?thesis by (simp add: upload_file_def)
  next
    case (Some fb)
    obtain f b where fb: "fb = (f, b)" by (cases fb)
    let ?up = "strip_slash (case form_path form of None \<Rightarrow> [] | Some p \<Rightarrow> p)"
    obtain fs1 made where d: "make_save_directory clk fs ?up = (fs1, made)"
      by (cases "make_save_directory clk fs ?up")
    have w1: "wf_fs fs1" using d w wf_create_directory [OF w, of clk ?up]
      by (auto simp: make_save_directory_def split: if_splits)
    show ?thesis
      using Some fb w w1 d wf_store_upload [OF w1]
      by (cases made) (simp_all add: upload_file_def Let_def)
  qed
qed

lemma wf_create_folder: "wf_fs fs \<Longrightarrow> wf_fs (fst (create_folder clk fs data))"
proof -
  assume w: "wf_fs fs"
  have "wf_fs (fst (case create_directory clk fs p of
               (fs', Inl e) \<Rightarrow> (fs', ErrorJson 500 ''CREATE_FOLDER_ERROR'')
             | (fs', Inr full_path) \<Rightarrow> (fs', FolderCreated q full_path)))" for p q
    using wf_create_directory [OF w, of clk p]
    by (cases "create_directory clk fs p") (auto split: sum.splits)
  with w show ?thesis
    by (simp add: create_folder_def Let_def split: option.splits json.splits)
qed

lemma readers_keep_fs:
  "fst (download_file fs filename) = fs" and "fst (list_files fs folder_path) = fs"
  by (simp_all add: download_file_def list_files_def Let_def split: sum.splits)

lemma wf_two_dirs: "wf_fs two_dirs"
  by (simp add: wf_fs_def two_dirs_def plain_def)

lemma resolve_mono:
  "\<forall>q. is_dir fs q \<longrightarrow> is_dir fs' q \<Longrightarrow> resolve fs p = Some c \<Longrightarrow> resolve fs' p = Some c"
  by (auto simp: resolve_def walk_mono split: if_splits)

lemma join_child_parts:
  assumes "plain name" and "t \<noteq> []"
  shows "\<exists>xs. split_on CHR ''/'' (os_path_join t name) = xs @ [name]
            \<and> (\<forall>fs d. (resolve fs t = Some d \<and> is_dir fs d) = (walk fs [] xs = Some d \<and> is_dir fs d))"
proof -
  from split_on_join_child [OF assms] obtain xs
    where j: "split_on CHR ''/'' (os_path_join t name) = xs @ [name]"
      and x: "split_on CHR ''/'' t = xs \<or> split_on CHR ''/'' t = xs @ [[]]" by blast
  have "(resolve fs t = Some d \<and> is_dir fs d) = (walk fs [] xs = Some d \<and> is_dir fs d)" for fs d
  proof (cases "split_on CHR ''/'' t = xs")
    case True
    with assms(2) show ?thesis by (simp add: resolve_def)
  next
    case False
    with x have s: "split_on CHR ''/'' t = xs @ [[]]" by simp
    have "walk fs [] (xs @ [[]]) = Some d \<and> is_dir fs d \<longleftrightarrow> walk fs [] xs = Some d \<and> is_dir fs d"
      by (auto simp: walk_append enter_def split: option.splits)
    with s assms(2) show ?thesis by (simp add: resolve_def)
  qed
  with j show ?thesis by blast
qed

lemma resolve_child_parent:
  assumes "plain name" and "t \<noteq> []" and "resolve fs (os_path_join t name) = Some c"
  shows "\<exists>d. resolve fs t = Some d \<and> is_dir fs d \<and> c = d @ [name]"
proof -
  from join_child_parts [OF assms(1,2)] obtain xs
    where j: "split_on CHR ''/'' (os_path_join t name) = xs @ [name]"
      and p: "\<And>fs d. (resolve fs t = Some d \<and> is_dir fs d) = (walk fs [] xs = Some d \<and> is_dir fs d)"
    by blast
  from assms(3) j have w: "walk fs [] (xs @ [name]) = Some c" by (simp add: resolve_def split: if_splits)
  then obtain d where d: "walk fs [] xs = Some d" by (auto simp: walk_append split: option.splits)
  with w have "walk fs d [name] = Some c" by (simp add: walk_append)
  then have "is_dir fs d" and "c = d @ [name]"
    using assms(1) by (auto simp: enter_plain split: if_splits)
  with d p [of fs d] show ?thesis by blast
qed

lemma file_save_unfold:
  assumes "split_on CHR ''/'' dst = xs @ [name]" and "plain name" and "dst \<noteq> []"
  shows "file_save clk fs dst bytes =
           (case walk fs [] xs of
              None \<Rightarrow> (fs, Some NotADirectoryError)
            | Some d \<Rightarrow>
                if \<not> is_dir fs d then
                  (fs, Some (if node_at fs d = None then FileNotFoundError else NotADirectoryError))
                else
                  (case node_at fs (d @ [name]) of
                     None \<Rightarrow> (create_entry clk (d @ [name]) (File bytes clk) fs, None)
                   | Some (File _ _) \<Rightarrow> (AList.update (d @ [name]) (File bytes clk) fs, None)
                   | Some (Dir _) \<Rightarrow> (fs, Some IsADirectoryError)))"
  using assms by (simp add: file_save_def Let_def plain_def split: option.splits node.splits)

lemma file_save_ok:
  assumes "plain name" and "t \<noteq> []"
    and "file_save clk fs (os_path_join t name) bytes = (fs', None)"
  shows "\<exists>d. resolve fs t = Some d \<and> is_dir fs d \<and> \<not> is_dir fs (d @ [name])
           \<and> node_at fs' (d @ [name]) = Some (File bytes clk)
           \<and> (\<forall>q. q \<noteq> d @ [name] \<longrightarrow> is_dir fs' q = is_dir fs q
                  \<and> (\<forall>b t. (node_at fs' q = Some (File b t)) = (node_at fs q = Some (File b t))))"
proof -
  from join_child_parts [OF assms(1,2)] obtain xs
    where j: "split_on CHR ''/'' (os_path_join t name) = xs @ [name]"
      and p: "\<And>fs d. (resolve fs t = Some d \<and> is_dir fs d) = (walk fs [] xs = Some d \<and> is_dir fs d)"
    by blast
  note u = file_save_unfold [OF j assms(1) os_path_join_not_Nil [OF assms(2)], of clk fs bytes]
  from assms(3) u obtain d where w: "walk fs [] xs = Some d" by (auto split: option.splits)
  with assms(3) u have dd: "is_dir fs d" by (auto split: if_splits)
  let ?p = "d @ [name]"
  from assms(3) u w dd
  have c: "(node_at fs ?p = None \<and> fs' = create_entry clk ?p (File bytes clk) fs)
         \<or> ((\<exists>b t. node_at fs ?p = Some (File b t)) \<and> fs' = AList.update ?p (File bytes clk) fs)"
    by (auto split: option.splits node.splits)
  then have nd: "\<not> is_dir fs ?p" by (auto simp: is_dir_iff)
  from c have at: "node_at fs' ?p = Some (File bytes clk)"
    by (auto simp: node_at_create_entry node_at_update)
  have fr: "is_dir fs' q = is_dir fs q
        \<and> (\<forall>b t. (node_at fs' q = Some (File b t)) = (node_at fs q = Some (File b t)))"
    if "q \<noteq> ?p" for q
    using c that is_dir_touch [of clk "butlast ?p" fs q] file_at_touch [of clk "butlast ?p" fs q]
    by (auto simp: is_dir_iff node_at_create_entry node_at_update)
  from w dd p [of fs d] nd at fr show ?thesis by blast
qed

lemma file_save_succeeds:
  assumes "plain name" and "resolve fs t = Some d" and "is_dir fs d" and "\<not> is_dir fs (d @ [name])"
  shows "\<exists>fs'. file_save clk fs (os_path_join t name) bytes = (fs', None)"
proof -
  from assms(2) have t: "t \<noteq> []" by (auto simp: resolve_def split: if_splits)
  from join_child_parts [OF assms(1) t] obtain xs
    where j: "split_on CHR ''/'' (os_path_join t name) = xs @ [name]"
      and p: "\<And>fs d. (resolve fs t = Some d \<and> is_dir fs d) = (walk fs [] xs = Some d \<and> is_dir fs d)"
    by blast
  from p [of fs d] assms(2,3) have w: "walk fs [] xs = Some d" by blast
  show ?thesis
    unfolding file_save_unfold [OF j assms(1) os_path_join_not_Nil [OF t]]
    using w assms(3,4) by (auto simp: is_dir_iff split: option.splits node.splits)
qed

lemma stat_after_save:
  assumes "plain name" and "resolve fs t = Some d" and "is_dir fs d"
    and "node_at fs' (d @ [name]) = Some n"
    and "\<forall>q. q \<noteq> d @ [name] \<longrightarrow> is_dir fs' q = is_dir fs q" and "\<not> is_dir fs (d @ [name])"
  shows "stat fs' (os_path_join t name) = Some n"
proof -
  have m: "\<forall>q. is_dir fs q \<longrightarrow> is_dir fs' q" using assms(5,6) by metis
  from resolve_mono [OF m assms(2)] have r: "resolve fs' t = Some d" .
  from m assms(3) have "is_dir fs' d" by blast
  from resolve_join_child [OF r this assms(1)] assms(4) show ?thesis by (simp add: stat_def)
qed

lemma stat_child:
  assumes "plain name" and "resolve fs t = Some d" and "is_dir fs d"
  shows "stat fs (os_path_join t name) = node_at fs (d @ [name])"
  using resolve_join_child [OF assms(2,3,1)] by (simp add: stat_def)

lemma last_dot_decomp:
  assumes "CHR ''.'' \<in> set s"
  shows "s = take (length s - length (rev (takeWhile (\<lambda>c. c \<noteq> CHR ''.'') (rev s))) - 1) s
             @ CHR ''.'' # rev (takeWhile (\<lambda>c. c \<noteq> CHR ''.'') (rev s))"
proof -
  define e where "e = rev (takeWhile (\<lambda>c. c \<noteq> CHR ''.'') (rev s))"
  from rsplit1_dot_decomp [OF assms] obtain stem where s: "s = stem @ ''.'' @ e"
    using assms by (auto simp: rsplit1_dot_def e_def)
  have "length s - length e - 1 = length stem" by (subst s) simp
  then have "take (length s - length e - 1) s = stem" by (subst (2) s) simp
  with s show ?thesis unfolding e_def [symmetric] by simp
qed

lemma basename_decomp: "\<exists>h. p = h @ os_path_basename p"
proof -
  have "rev p = takeWhile (\<lambda>c. c \<noteq> CHR ''/'') (rev p) @ dropWhile (\<lambda>c. c \<noteq> CHR ''/'') (rev p)"
    by simp
  then have "rev (rev p) = rev (takeWhile (\<lambda>c. c \<noteq> CHR ''/'') (rev p) @ dropWhile (\<lambda>c. c \<noteq> CHR ''/'') (rev p))"
    by (simp only: takeWhile_dropWhile_id)
  then have "p = rev (dropWhile (\<lambda>c. c \<noteq> CHR ''/'') (rev p)) @ os_path_basename p"
    by (simp only: rev_append rev_rev_ident os_path_basename_def)
  then show ?thesis by blast
qed

lemma basename_plain: "CHR ''/'' \<notin> set p \<Longrightarrow> os_path_basename p = p"
proof -
  assume "CHR ''/'' \<notin> set p"
  then have "\<forall>c \<in> set (rev p). c \<noteq> CHR ''/''" by auto
  then have tw: "takeWhile (\<lambda>c. c \<noteq> CHR ''/'') (rev p) = rev p"
    by (simp only: takeWhile_eq_all_conv)
  show ?thesis unfolding os_path_basename_def tw by simp
qed

lemma splitext_append:
  assumes "CHR ''/'' \<notin> set p" and "os_path_splitext p = (a, b)"
  shows "a @ b = p"
proof (cases "CHR ''.'' \<in> set p")
  case True
  from last_dot_decomp [OF True] assms show ?thesis
    by (auto simp: os_path_splitext_def basename_plain Let_def split: if_splits)
next
  case False
  with assms show ?thesis by (simp add: os_path_splitext_def basename_plain Let_def)
qed

lemma digit_in: "digit n \<in> set ''0123456789''"
  unfolding digit_def by (rule nth_mem) simp

lemma pad2_in: "set (pad2 n) \<subseteq> set ''0123456789''"
  using digit_in [of n] digit_in [of "n div 10"] by (simp add: pad2_def)

lemma strftime_stamp_chars: "set (strftime_stamp now) \<subseteq> set ''0123456789_''"
proof -
  define D where "D = set ''0123456789_''"
  have "set ''0123456789'' \<subseteq> D" unfolding D_def by auto
  then have p: "set (pad2 n) \<subseteq> D" for n using pad2_in [of n] by blast
  have u: "set ''_'' \<subseteq> D" unfolding D_def by simp
  have "set (strftime_stamp now) \<subseteq> D"
    unfolding strftime_stamp_def set_append using p u by blast
  then show ?thesis unfolding D_def .
qed

lemma strftime_stamp_length: "length (strftime_stamp now) = 15"
  by (simp add: strftime_stamp_def pad2_def)

lemma stamped_eq:
  assumes "CHR ''/'' \<notin> set f"
  shows "\<exists>a b. os_path_splitext f = (a, b) \<and> f = a @ b
           \<and> stamped now f = a @ ''_'' @ strftime_stamp now @ b"
proof -
  obtain a b where ab: "os_path_splitext f = (a, b)" by (cases "os_path_splitext f")
  from splitext_append [OF assms ab] ab show ?thesis by (simp add: stamped_def)
qed

lemma plain_stamped:
  assumes "plain f"
  shows "plain (stamped now f)"
proof -
  from assms have nf: "CHR ''/'' \<notin> set f" by (simp add: plain_def)
  from stamped_eq [OF nf, of now] obtain a b where f: "f = a @ b"
    and s: "stamped now f = a @ ''_'' @ strftime_stamp now @ b" by blast
  have "CHR ''/'' \<notin> set (strftime_stamp now)" using strftime_stamp_chars [of now] by auto
  with nf f s have 1: "CHR ''/'' \<notin> set (stamped now f)" by auto
  have "CHR ''_'' \<in> set (stamped now f)" using s by simp
  then have 2: "stamped now f \<noteq> [] \<and> stamped now f \<noteq> ''.'' \<and> stamped now f \<noteq> ''..''" by auto
  from 1 2 show ?thesis by (simp add: plain_def)
qed

lemma stamped_neq: "CHR ''/'' \<notin> set f \<Longrightarrow> stamped now f \<noteq> f"
proof -
  assume "CHR ''/'' \<notin> set f"
  from stamped_eq [OF this, of now] obtain a b where "f = a @ b"
    and "stamped now f = a @ ''_'' @ strftime_stamp now @ b" by blast
  then have "length (stamped now f) = length f + 16" by (simp add: strftime_stamp_length)
  then show ?thesis by auto
qed

lemma stamped_inj:
  assumes "CHR ''/'' \<notin> set f" and "stamped now f = stamped now' f"
  shows "strftime_stamp now = strftime_stamp now'"
proof -
  from stamped_eq [OF assms(1), of now] stamped_eq [OF assms(1), of now']
  obtain a b where "stamped now f = a @ ''_'' @ strftime_stamp now @ b"
    and "stamped now' f = a @ ''_'' @ strftime_stamp now' @ b" by auto
  with assms(2) show ?thesis by simp
qed

lemma plain_secure_ext:
  assumes "str_lower e \<in> ALLOWED_EXTENSIONS" and "CHR ''/'' \<notin> set pre"
  shows "plain (pre @ e)"
proof -
  from allowed_ext_letters [OF assms(1)] have ne: "e \<noteq> []" and l: "\<forall>c \<in> set e. ascii_letter c" by auto
  then have le: "ascii_letter (last e)" by simp
  have "last (pre @ e) = last e" using ne by simp
  with le ascii_letter_not_punct have "last (pre @ e) \<noteq> CHR ''.''" by auto
  then have "pre @ e \<noteq> ''.'' \<and> pre @ e \<noteq> ''..''" by auto
  moreover have "CHR ''/'' \<notin> set (pre @ e)" using assms(2) l ascii_letter_not_punct by auto
  ultimately show ?thesis using ne by (simp add: plain_def)
qed

lemma str_lower_idem: "str_lower (str_lower s) = str_lower s"
proof -
  have "chr_lower (chr_lower c) = chr_lower c" for c
    by (rule of_char_eqI [where ?'a = nat]) (simp add: of_char_chr_lower)
  then show ?thesis by (simp add: str_lower_def)
qed

lemma plain_choose_filename:
  assumes "allowed_file f"
  shows "plain (choose_filename f custom)"
proof -
  from assms have low: "str_lower (rsplit1_dot f ! 1) \<in> ALLOWED_EXTENSIONS"
    by (simp add: allowed_file_def)
  show ?thesis
  proof (cases "custom = []")
    case True
    from secure_filename_keeps_ext [OF assms] obtain pre
      where p: "secure_filename f = pre @ (rsplit1_dot f ! 1)" by blast
    have "CHR ''/'' \<notin> set pre" using secure_filename_no_slash [of f] p by auto
    from plain_secure_ext [OF low this] p True show ?thesis by (simp add: choose_filename_def)
  next
    case False
    have "str_lower (str_lower (rsplit1_dot f ! 1)) \<in> ALLOWED_EXTENSIONS"
      using low by (simp add: str_lower_idem)
    moreover have "CHR ''/'' \<notin> set (secure_filename custom @ ''.'')"
      using secure_filename_no_slash [of custom] by simp
    ultimately have "plain ((secure_filename custom @ ''.'') @ str_lower (rsplit1_dot f ! 1))"
      by (rule plain_secure_ext)
    with False show ?thesis by (simp add: choose_filename_def)
  qed
qed

lemma strip_chars_fixed:
  assumes "t \<noteq> []" and "hd t \<notin> cs" and "last t \<notin> cs"
  shows "strip_chars cs t = t"
proof -
  from assms have 1: "dropWhile (\<lambda>c. c \<in> cs) t = t" by (cases t) auto
  from assms have "rev t \<noteq> []" and "hd (rev t) \<notin> cs" by (simp_all add: hd_rev)
  then have 2: "dropWhile (\<lambda>c. c \<in> cs) (rev t) = rev t" by (cases "rev t") auto
  show ?thesis by (simp add: strip_chars_def lstrip_chars_def 1 2)
qed

lemma strip_chars_idem: "strip_chars cs (strip_chars cs s) = strip_chars cs s"
proof (cases "strip_chars cs s = []")
  case True
  have "strip_chars cs [] = []" by (simp add: strip_chars_def lstrip_chars_def)
  then show ?thesis by (simp only: True)
next
  case False
  from False strip_chars_hd [OF False] strip_chars_last [OF False]
  show ?thesis by (rule strip_chars_fixed)
qed

lemma strip_slash_idem: "strip_slash (strip_slash s) = strip_slash s"
  by (simp add: strip_slash_def strip_chars_idem)

lemma os_makedirs_isdir:
  assumes "os_makedirs clk fs p = (fs', None)"
  shows "os_path_isdir fs' p \<and> fs_le fs fs'"
proof -
  from assms have p: "p \<noteq> []" and m: "makedirs_walk clk fs [] (split_on CHR ''/'' p) = (fs', None)"
    by (auto simp: os_makedirs_def split: if_splits)
  from makedirs_walk_dirs [OF m] have "walk fs' [] (split_on CHR ''/'' p) = Some (foldl enter [] (split_on CHR ''/'' p))"
    and "dir_chain fs' (foldl enter [] (split_on CHR ''/'' p))" by simp_all
  then have "os_path_isdir fs' p" using p dir_chain_last by (auto simp: os_path_isdir_iff resolve_def)
  with makedirs_walk_le [OF m] show ?thesis by simp
qed

lemma make_save_directory_ok:
  assumes "make_save_directory clk fs (strip_slash p) = (fs1, Inr dir)"
  shows "dir = (if strip_slash p \<noteq> [] then ''/app/files/'' @ strip_slash p else ''/app/files'')
       \<and> fs_le fs fs1 \<and> (strip_slash p \<noteq> [] \<longrightarrow> os_path_isdir fs1 dir)
       \<and> (strip_slash p = [] \<longrightarrow> fs1 = fs)"
proof (cases "strip_slash p = []")
  case True
  with assms show ?thesis by (simp add: make_save_directory_def UPLOAD_FOLDER_def)
next
  case False
  obtain fs' r where m: "os_makedirs clk fs (''/app/files/'' @ strip_slash p) = (fs', r)"
    by (cases "os_makedirs clk fs (''/app/files/'' @ strip_slash p)")
  with assms False have "fs' = fs1" and "r = None" and "dir = ''/app/files/'' @ strip_slash p"
    by (auto simp: make_save_directory_def create_directory_def create_directory_path
        strip_slash_idem split: option.splits)
  with m os_makedirs_isdir [of clk fs "''/app/files/'' @ strip_slash p" fs1] False
  show ?thesis by simp
qed

lemma store_upload_ok:
  assumes "plain f0" and "dir \<noteq> []"
    and "store_upload now clk fs up dir f0 bytes = (fs', Uploaded n rel url sz)"
  shows "\<exists>d. resolve fs dir = Some d \<and> is_dir fs d
           \<and> n = (if node_at fs (d @ [f0]) \<noteq> None then stamped now f0 else f0)
           \<and> plain n \<and> \<not> is_dir fs (d @ [n])
           \<and> node_at fs' (d @ [n]) = Some (File bytes clk)
           \<and> (\<forall>q. q \<noteq> d @ [n] \<longrightarrow> is_dir fs' q = is_dir fs q
                  \<and> (\<forall>b t. (node_at fs' q = Some (File b t)) = (node_at fs q = Some (File b t))))
           \<and> rel = (if up \<noteq> [] then up @ ''/'' @ n else n) \<and> sz = length bytes"
proof -
  define n0 where "n0 = (if os_path_exists fs (os_path_join dir f0) then stamped now f0 else f0)"
  have pn: "plain n0" using assms(1) plain_stamped by (simp add: n0_def)
  obtain fs2 r where s: "file_save clk fs (os_path_join dir n0) bytes = (fs2, r)"
    by (cases "file_save clk fs (os_path_join dir n0) bytes")
  from assms(3) s have r: "r = None" and f: "fs2 = fs'"
    by (auto simp: store_upload_def Let_def n0_def [symmetric] split: option.splits sum.splits)
  from file_save_ok [OF pn assms(2), of clk fs bytes fs'] s r f
  obtain d where d: "resolve fs dir = Some d" "is_dir fs d" "\<not> is_dir fs (d @ [n0])"
    "node_at fs' (d @ [n0]) = Some (File bytes clk)"
    and fr: "\<forall>q. q \<noteq> d @ [n0] \<longrightarrow> is_dir fs' q = is_dir fs q
                  \<and> (\<forall>b t. (node_at fs' q = Some (File b t)) = (node_at fs q = Some (File b t)))"
    by auto
  have st: "stat fs' (os_path_join dir n0) = Some (File bytes clk)"
    using stat_after_save [OF pn d(1,2,4) _ d(3)] fr by blast
  from assms(3) s r f st have res: "n = n0" "rel = (if up \<noteq> [] then up @ ''/'' @ n0 else n0)"
    "sz = length bytes"
    by (auto simp: store_upload_def Let_def n0_def [symmetric] os_path_getsize_def split: if_splits)
  have "os_path_exists fs (os_path_join dir f0) = (node_at fs (d @ [f0]) \<noteq> None)"
    using stat_child [OF assms(1) d(1,2)] by (simp add: os_path_exists_def)
  then have "n0 = (if node_at fs (d @ [f0]) \<noteq> None then stamped now f0 else f0)"
    by (simp add: n0_def)
  with d fr res pn show ?thesis by blast
qed

lemma store_upload_succeeds:
  assumes "plain f0" and "resolve fs dir = Some d" and "is_dir fs d"
    and "n = (if node_at fs (d @ [f0]) \<noteq> None then stamped now f0 else f0)"
    and "\<not> is_dir fs (d @ [n])"
  shows "\<exists>fs'. store_upload now clk fs up dir f0 bytes
           = (fs', Uploaded n (if up \<noteq> [] then up @ ''/'' @ n else n)
                    (''http://localhost:5000/files/'' @ (if up \<noteq> [] then up @ ''/'' @ n else n))
                    (length bytes))"
proof -
  have pn: "plain n" using assms(1,4) plain_stamped by simp
  from assms(2) have t: "dir \<noteq> []" by (auto simp: resolve_def split: if_splits)
  have "os_path_exists fs (os_path_join dir f0) = (node_at fs (d @ [f0]) \<noteq> None)"
    using stat_child [OF assms(1,2,3)] by (simp add: os_path_exists_def)
  then have n0: "(if os_path_exists fs (os_path_join dir f0) then stamped now f0 else f0) = n"
    using assms(4) by simp
  from file_save_succeeds [OF pn assms(2,3,5), of clk bytes]
  obtain fs' where s: "file_save clk fs (os_path_join dir n) bytes = (fs', None)" by blast
  from file_save_ok [OF pn t s] assms(2)
  have at: "node_at fs' (d @ [n]) = Some (File bytes clk)"
    and fr: "\<forall>q. q \<noteq> d @ [n] \<longrightarrow> is_dir fs' q = is_dir fs q" by auto
  have st: "stat fs' (os_path_join dir n) = Some (File bytes clk)"
    using stat_after_save [OF pn assms(2,3) at fr assms(5)] .
  show ?thesis
    using s st by (simp add: store_upload_def Let_def n0 os_path_getsize_def)
qed

section \<open>Facts about the handlers\<close>

lemma startup_fresh: "startup 0 [] = (fresh, None)"
  by code_simp

lemma store_upload_not_400: "snd (store_upload now clk fs up dir f0 bytes) \<noteq> ErrorJson 400 c"
  by (simp add: store_upload_def Let_def split: prod.splits sum.splits option.splits)

lemma upload_accepted_not_400:
  assumes "form_file form = Some (fname, bytes)" "fname \<noteq> []" "allowed_file fname"
  shows "snd (upload_file now clk fs form) \<noteq> ErrorJson 400 c"
  using assms store_upload_not_400
  by (simp add: upload_file_def Let_def split: prod.splits sum.splits)

lemma allowed_file_not_Nil: "allowed_file f \<Longrightarrow> f \<noteq> []"
  by (auto simp: allowed_file_def)

lemma upload_file_stores:
  assumes "form_file form = Some (fname, bytes)" and "allowed_file fname"
  shows "upload_file now clk fs form =
           (case make_save_directory clk fs
                   (strip_slash (case form_path form of None \<Rightarrow> [] | Some p \<Rightarrow> p)) of
              (fs1, Inl e) \<Rightarrow> (fs1, ErrorJson 500 ''UPLOAD_ERROR'')
            | (fs1, Inr save_directory) \<Rightarrow>
                store_upload now clk fs1
                  (strip_slash (case form_path form of None \<Rightarrow> [] | Some p \<Rightarrow> p))
                  save_directory
                  (choose_filename fname
                     (str_strip (case form_filename form of None \<Rightarrow> [] | Some n \<Rightarrow> n)))
                  bytes)"
  using assms allowed_file_not_Nil [OF assms(2)] by (simp add: upload_file_def Let_def)







lemma normpath_plain: "plain n \<Longrightarrow> normpath n = n"
proof -
  assume p: "plain n"
  then have s: "split_on CHR ''/'' n = [n]" by (rule plain_split)
  from p have a: "\<not> prefix ''/'' n" by (rule plain_not_abs)
  from p have "norm_comps False [] [n] = [n]" by (simp add: plain_def)
  with p a s show ?thesis by (simp add: normpath_def Let_def plain_def)
qed

lemma safe_join_plain:
  "plain n \<Longrightarrow> dir \<noteq> [] \<Longrightarrow> safe_join dir n = Some (os_path_join dir n)"
proof -
  assume p: "plain n" and d: "dir \<noteq> []"
  from p have "\<not> prefix ''/'' n" by (rule plain_not_abs)
  moreover from p have "\<not> prefix ''../'' n" by (auto simp: plain_def prefix_def)
  moreover from p have "n \<noteq> ''..''" "n \<noteq> []" by (simp_all add: plain_def)
  ultimately show ?thesis using d by (simp add: safe_join_def normpath_plain [OF p] Let_def)
qed

lemma basename_child:
  assumes "CHR ''/'' \<notin> set n"
  shows "os_path_basename (dir @ ''/'' @ n) = n"
proof -
  have "takeWhile (\<lambda>c. c \<noteq> CHR ''/'') (rev n @ CHR ''/'' # rev dir)
          = takeWhile (\<lambda>c. c \<noteq> CHR ''/'') (rev n)"
    by (rule takeWhile_tail) simp
  also have "\<dots> = rev n" using assms by (auto simp: takeWhile_eq_all_conv)
  finally show ?thesis by (simp add: os_path_basename_def)
qed

lemma dirname_child:
  assumes "CHR ''/'' \<notin> set n" and "dir \<noteq> []" and "last dir \<noteq> CHR ''/''"
  shows "os_path_dirname (dir @ ''/'' @ n) = dir"
proof -
  define head where "head = rev (dropWhile (\<lambda>c. c \<noteq> CHR ''/'') (rev (dir @ ''/'' @ n)))"
  have "dropWhile (\<lambda>c. c \<noteq> CHR ''/'') (rev n @ CHR ''/'' # rev dir)
          = dropWhile (\<lambda>c. c \<noteq> CHR ''/'') (CHR ''/'' # rev dir)"
    by (rule dropWhile_append2) (use assms(1) in auto)
  then have h: "head = dir @ ''/''" by (simp add: head_def)
  have "last dir \<in> set head" using assms(2) h by simp
  with assms(3) have ns: "\<not> (\<forall>c \<in> set head. c = CHR ''/'')" by blast
  from assms(2,3) have "hd (rev dir) \<noteq> CHR ''/''" and "rev dir \<noteq> []" by (simp_all add: hd_rev)
  then have "dropWhile (\<lambda>c. c \<in> {CHR ''/''}) (rev dir) = rev dir" by (cases "rev dir") auto
  then have l: "rev (lstrip_chars {CHR ''/''} (rev head)) = dir"
    by (simp add: lstrip_chars_def h)
  have hn: "head \<noteq> []" using h by simp
  have "os_path_dirname (dir @ ''/'' @ n)
      = (if head \<noteq> [] \<and> \<not> (\<forall>c \<in> set head. c = CHR ''/'')
         then rev (lstrip_chars {CHR ''/''} (rev head)) else head)"
    unfolding os_path_dirname_def head_def Let_def ..
  also have "\<dots> = dir" using hn ns l by (simp only: simp_thms if_True)
  finally show ?thesis .
qed

lemma download_stored:
  assumes "plain n" and "dir \<noteq> []" and "last dir \<noteq> CHR ''/''"
    and "os_path_join UPLOAD_FOLDER rel = dir @ ''/'' @ n"
    and "\<not> str_in ''..'' rel" and "\<not> prefix ''/'' rel"
    and "resolve fs dir = Some d" and "is_dir fs d"
    and "node_at fs (d @ [n]) = Some (File bytes t)"
  shows "download_file fs rel = (fs, FileBody bytes)"
proof -
  from assms(1) have ns: "CHR ''/'' \<notin> set n" by (simp add: plain_def)
  have j: "os_path_join dir n = dir @ ''/'' @ n"
    using assms(1,2,3) plain_not_abs by (simp add: os_path_join_def)
  from stat_child [OF assms(1,7,8)] assms(9) j
  have st: "stat fs (dir @ ''/'' @ n) = Some (File bytes t)" by simp
  then have ex: "os_path_exists fs (dir @ ''/'' @ n)" by (simp add: os_path_exists_def)
  have "send_from_directory fs dir n = Inr bytes"
    using safe_join_plain [OF assms(1,2)] j st by (simp add: send_from_directory_def)
  then show ?thesis
    using assms(4,5,6) ex basename_child [OF ns] dirname_child [OF ns assms(2,3)]
    by (simp add: download_file_def Let_def)
qed

lemma save_dir_string:
  "dir = (if strip_slash p \<noteq> [] then ''/app/files/'' @ strip_slash p else ''/app/files'')
     \<Longrightarrow> dir \<noteq> [] \<and> last dir \<noteq> CHR ''/''"
  using strip_slash_ends [of p] by auto

lemma download_path_string:
  assumes "dir = (if strip_slash p \<noteq> [] then ''/app/files/'' @ strip_slash p else ''/app/files'')"
    and "rel = (if strip_slash p \<noteq> [] then strip_slash p @ ''/'' @ n else n)" and "plain n"
  shows "os_path_join UPLOAD_FOLDER rel = dir @ ''/'' @ n \<and> \<not> prefix ''/'' rel"
proof -
  have np: "\<not> prefix ''/'' rel"
  proof (cases "strip_slash p = []")
    case True
    with assms(2,3) plain_not_abs show ?thesis by simp
  next
    case False
    with strip_slash_ends [OF False] assms(2) show ?thesis
      by (cases "strip_slash p") auto
  qed
  from join_upload_folder [OF np] assms(1,2) np show ?thesis by auto
qed

lemma stamped_upload:
  assumes form: "form_file form = Some (f, bytes)" and al: "allowed_file f"
    and custom: "custom = str_strip (case form_filename form of None \<Rightarrow> [] | Some n \<Rightarrow> n)"
    and up: "up = strip_slash (case form_path form of None \<Rightarrow> [] | Some p \<Rightarrow> p)"
    and f0: "f0 = choose_filename f custom"
    and mk: "make_save_directory clk fs up = (fs1, Inr dir)"
    and d: "resolve fs1 dir = Some d" "is_dir fs1 d"
    and ex: "node_at fs1 (d @ [f0]) \<noteq> None"
    and nd: "\<not> is_dir fs1 (d @ [stamped now f0])"
  shows "\<exists>fs2. upload_file now clk fs form
           = (fs2, Uploaded (stamped now f0)
                    (if up \<noteq> [] then up @ ''/'' @ stamped now f0 else stamped now f0)
                    (''http://localhost:5000/files/''
                       @ (if up \<noteq> [] then up @ ''/'' @ stamped now f0 else stamped now f0))
                    (length bytes))
         \<and> resolve fs2 dir = Some d \<and> is_dir fs2 d
         \<and> node_at fs2 (d @ [stamped now f0]) = Some (File bytes clk)
         \<and> (\<forall>q. q \<noteq> d @ [stamped now f0] \<longrightarrow> is_dir fs2 q = is_dir fs1 q
                \<and> (\<forall>b t. (node_at fs2 q = Some (File b t)) = (node_at fs1 q = Some (File b t))))"
proof -
  have pl: "plain f0" using plain_choose_filename [OF al] f0 by simp
  let ?n = "stamped now f0"
  have n: "?n = (if node_at fs1 (d @ [f0]) \<noteq> None then stamped now f0 else f0)" using ex by simp
  from store_upload_succeeds [OF pl d n nd]
  obtain fs2 where s: "store_upload now clk fs1 up dir f0 bytes
       = (fs2, Uploaded ?n (if up \<noteq> [] then up @ ''/'' @ ?n else ?n)
                (''http://localhost:5000/files/'' @ (if up \<noteq> [] then up @ ''/'' @ ?n else ?n))
                (length bytes))"
    by blast
  from d(1) have t: "dir \<noteq> []" by (auto simp: resolve_def split: if_splits)
  from store_upload_ok [OF pl t s] d(1)
  have at: "node_at fs2 (d @ [?n]) = Some (File bytes clk)"
    and fr: "\<forall>q. q \<noteq> d @ [?n] \<longrightarrow> is_dir fs2 q = is_dir fs1 q
                \<and> (\<forall>b t. (node_at fs2 q = Some (File b t)) = (node_at fs1 q = Some (File b t)))"
    by auto
  have m: "\<forall>q. is_dir fs1 q \<longrightarrow> is_dir fs2 q" using fr nd by metis
  have r2: "resolve fs2 dir = Some d" using m d(1) by (rule resolve_mono)
  have d2: "is_dir fs2 d" using m d(2) by blast
  have "upload_file now clk fs form = store_upload now clk fs1 up dir f0 bytes"
    using upload_file_stores [OF form al] custom up f0 mk by simp
  with s at fr r2 d2 show ?thesis by simp
qed

lemma upload_success_state:
  assumes form: "form_file form = Some (f, bytes)"
    and custom: "custom = str_strip (case form_filename form of None \<Rightarrow> [] | Some n \<Rightarrow> n)"
    and up: "up = strip_slash (case form_path form of None \<Rightarrow> [] | Some p \<Rightarrow> p)"
    and dir: "dir = (if up \<noteq> [] then ''/app/files/'' @ up else ''/app/files'')"
    and f0: "f0 = choose_filename f custom"
    and ok: "upload_file now clk fs form = (fs1, Uploaded n rel url sz)"
  shows "allowed_file f \<and> plain n \<and> (n = f0 \<or> n = stamped now f0)
       \<and> rel = (if up \<noteq> [] then up @ ''/'' @ n else n)
       \<and> (\<exists>d. resolve fs1 dir = Some d \<and> is_dir fs1 d
              \<and> node_at fs1 (d @ [n]) = Some (File bytes clk)
              \<and> node_at fs1 (d @ [f0]) \<noteq> None)"
proof -
  from form ok have al: "allowed_file f" by (auto simp: upload_file_def split: if_splits)
  obtain fsA made where m: "make_save_directory clk fs up = (fsA, made)"
    by (cases "make_save_directory clk fs up")
  from upload_file_stores [OF form al, of now clk fs] ok m custom up f0
  obtain dirA where mA: "made = Inr dirA"
    and s: "store_upload now clk fsA up dirA f0 bytes = (fs1, Uploaded n rel url sz)"
    by (cases made) auto
  from m mA up have "make_save_directory clk fs (strip_slash (case form_path form of None \<Rightarrow> [] | Some p \<Rightarrow> p)) = (fsA, Inr dirA)"
    by simp
  from make_save_directory_ok [OF this] up dir have dA: "dirA = dir" by simp
  have t: "dir \<noteq> []" using dir by auto
  have pl: "plain f0" using plain_choose_filename [OF al] f0 by simp
  from store_upload_ok [OF pl t s [unfolded dA]]
  obtain d where d: "resolve fsA dir = Some d" "is_dir fsA d"
    and n: "n = (if node_at fsA (d @ [f0]) \<noteq> None then stamped now f0 else f0)"
    and pn: "plain n" and nd: "\<not> is_dir fsA (d @ [n])"
    and at: "node_at fs1 (d @ [n]) = Some (File bytes clk)"
    and fr: "\<forall>q. q \<noteq> d @ [n] \<longrightarrow> is_dir fs1 q = is_dir fsA q
                \<and> (\<forall>b t. (node_at fs1 q = Some (File b t)) = (node_at fsA q = Some (File b t)))"
    and rel: "rel = (if up \<noteq> [] then up @ ''/'' @ n else n)"
    by blast
  have mo: "\<forall>q. is_dir fsA q \<longrightarrow> is_dir fs1 q" using fr nd by metis
  have r1: "resolve fs1 dir = Some d" using mo d(1) by (rule resolve_mono)
  have d1: "is_dir fs1 d" using mo d(2) by blast
  have ex: "node_at fs1 (d @ [f0]) \<noteq> None"
  proof (cases "node_at fsA (d @ [f0]) \<noteq> None")
    case False
    with n at show ?thesis by simp
  next
    case True
    with n have ns: "n = stamped now f0" by simp
    from pl have "stamped now f0 \<noteq> f0" by (simp add: stamped_neq plain_def)
    with ns have ne: "d @ [f0] \<noteq> d @ [n]" by simp
    from True obtain x where x: "node_at fsA (d @ [f0]) = Some x" by auto
    show ?thesis
    proof (cases x)
      case (File b t)
      with x fr ne show ?thesis by auto
    next
      case (Dir t)
      with x have "is_dir fsA (d @ [f0])" by (simp add: is_dir_iff)
      with fr ne have "is_dir fs1 (d @ [f0])" by blast
      then show ?thesis by (auto simp: is_dir_iff)
    qed
  qed
  from n have "n = f0 \<or> n = stamped now f0" by auto
  with al pn rel r1 d1 at ex show ?thesis by blast
qed

lemma make_save_directory_existing:
  assumes "dir = (if strip_slash p \<noteq> [] then ''/app/files/'' @ strip_slash p else ''/app/files'')"
    and "os_path_isdir fs dir"
  shows "make_save_directory clk fs (strip_slash p) = (fs, Inr dir)"
proof (cases "strip_slash p = []")
  case True
  with assms(1) show ?thesis by (simp add: make_save_directory_def UPLOAD_FOLDER_def)
next
  case False
  with assms have "os_makedirs clk fs (''/app/files/'' @ strip_slash p) = (fs, None)"
    by (simp add: os_makedirs_existing)
  with False assms(1) show ?thesis
    by (simp add: make_save_directory_def create_directory_def create_directory_path strip_slash_idem)
qed

lemma isdir_child:
  assumes "plain n" and "resolve fs dir = Some d" and "is_dir fs d"
  shows "os_path_isdir fs (os_path_join dir n) = is_dir fs (d @ [n])"
  using stat_child [OF assms]
  by (auto simp: os_path_isdir_def is_dir_iff split: option.splits node.splits)

lemma collision_part:
  assumes form: "form_file form = Some (f, bytes)" and al: "allowed_file f"
    and custom: "custom = str_strip (case form_filename form of None \<Rightarrow> [] | Some n \<Rightarrow> n)"
    and up: "up = strip_slash (case form_path form of None \<Rightarrow> [] | Some p \<Rightarrow> p)"
    and f0: "f0 = choose_filename f custom"
    and mk: "make_save_directory clk fs up = (fs1, Inr dir)"
    and ex: "os_path_exists fs1 (os_path_join dir f0)"
    and nd: "\<not> os_path_isdir fs1 (os_path_join dir (stamped now f0))"
  shows "\<exists>fs2 a b. upload_file now clk fs form
           = (fs2, Uploaded (stamped now f0)
                    (if up \<noteq> [] then up @ ''/'' @ stamped now f0 else stamped now f0)
                    (''http://localhost:5000/files/''
                       @ (if up \<noteq> [] then up @ ''/'' @ stamped now f0 else stamped now f0))
                    (length bytes))
         \<and> os_path_splitext f0 = (a, b) \<and> f0 = a @ b
         \<and> stamped now f0 = a @ ''_'' @ strftime_stamp now @ b
         \<and> stat fs2 (os_path_join dir (stamped now f0)) = Some (File bytes clk)
         \<and> (\<forall>b t. stat fs1 (os_path_join dir f0) = Some (File b t)
                \<longrightarrow> stat fs2 (os_path_join dir f0) = Some (File b t))"
proof -
  have pl: "plain f0" using plain_choose_filename [OF al] f0 by simp
  then have ps: "plain (stamped now f0)" by (rule plain_stamped)
  from pl have ns: "CHR ''/'' \<notin> set f0" by (simp add: plain_def)
  from mk up have "make_save_directory clk fs (strip_slash (case form_path form of None \<Rightarrow> [] | Some p \<Rightarrow> p)) = (fs1, Inr dir)"
    by simp
  from make_save_directory_ok [OF this] have t: "dir \<noteq> []" by (auto split: if_splits)
  from ex obtain c where c: "resolve fs1 (os_path_join dir f0) = Some c" and cn: "node_at fs1 c \<noteq> None"
    by (auto simp: os_path_exists_def stat_def split: option.splits)
  from resolve_child_parent [OF pl t c] obtain d where d: "resolve fs1 dir = Some d" "is_dir fs1 d"
    and cd: "c = d @ [f0]" by blast
  from cn cd have e: "node_at fs1 (d @ [f0]) \<noteq> None" by simp
  from nd isdir_child [OF ps d] have n: "\<not> is_dir fs1 (d @ [stamped now f0])" by simp
  from stamped_upload [OF form al custom up f0 mk d e n]
  obtain fs2 where u: "upload_file now clk fs form
           = (fs2, Uploaded (stamped now f0)
                    (if up \<noteq> [] then up @ ''/'' @ stamped now f0 else stamped now f0)
                    (''http://localhost:5000/files/''
                       @ (if up \<noteq> [] then up @ ''/'' @ stamped now f0 else stamped now f0))
                    (length bytes))"
    and d2: "resolve fs2 dir = Some d" "is_dir fs2 d"
    and at: "node_at fs2 (d @ [stamped now f0]) = Some (File bytes clk)"
    and fr: "\<forall>q. q \<noteq> d @ [stamped now f0] \<longrightarrow> is_dir fs2 q = is_dir fs1 q
                \<and> (\<forall>b t. (node_at fs2 q = Some (File b t)) = (node_at fs1 q = Some (File b t)))"
    by blast
  from stamped_eq [OF ns, of now] obtain a b where ab: "os_path_splitext f0 = (a, b)" "f0 = a @ b"
    "stamped now f0 = a @ ''_'' @ strftime_stamp now @ b" by blast
  have st: "stat fs2 (os_path_join dir (stamped now f0)) = Some (File bytes clk)"
    using stat_child [OF ps d2] at by simp
  have ne: "d @ [f0] \<noteq> d @ [stamped now f0]" using stamped_neq [OF ns, of now] by simp
  have keep: "\<forall>b t. stat fs1 (os_path_join dir f0) = Some (File b t)
                \<longrightarrow> stat fs2 (os_path_join dir f0) = Some (File b t)"
    using stat_child [OF pl d] stat_child [OF pl d2] fr ne by auto
  from u ab st keep show ?thesis by blast
qed

lemma second_upload_part:
  assumes form: "form_file form = Some (f, bytes)"
    and custom: "custom = str_strip (case form_filename form of None \<Rightarrow> [] | Some n \<Rightarrow> n)"
    and up: "up = strip_slash (case form_path form of None \<Rightarrow> [] | Some p \<Rightarrow> p)"
    and dir: "dir = (if up \<noteq> [] then ''/app/files/'' @ up else ''/app/files'')"
    and f0: "f0 = choose_filename f custom"
    and rel2: "rel2 = (if up \<noteq> [] then up @ ''/'' @ stamped now' f0 else stamped now' f0)"
    and first: "upload_file now clk fs form = (fs1, Uploaded n1 rel1 url1 sz1)"
    and nd: "\<not> os_path_isdir fs1 (os_path_join dir (stamped now' f0))"
    and differ: "n1 = f0 \<or> strftime_stamp now \<noteq> strftime_stamp now'"
    and dots: "\<not> str_in ''..'' rel1" "\<not> str_in ''..'' rel2"
  shows "\<exists>fs2. upload_file now' clk' fs1 (form\<lparr>form_file := Some (f, bytes')\<rparr>)
           = (fs2, Uploaded (stamped now' f0) rel2 (''http://localhost:5000/files/'' @ rel2)
                    (length bytes'))
         \<and> stamped now' f0 \<noteq> n1
         \<and> download_file fs2 rel1 = (fs2, FileBody bytes)
         \<and> download_file fs2 rel2 = (fs2, FileBody bytes')"
proof -
  let ?form' = "form\<lparr>form_file := Some (f, bytes')\<rparr>"
  let ?p = "case form_path form of None \<Rightarrow> [] | Some p \<Rightarrow> p"
  from upload_success_state [OF form custom up dir f0 first]
  obtain d where al: "allowed_file f" and pn: "plain n1"
    and n1: "n1 = f0 \<or> n1 = stamped now f0"
    and rel1: "rel1 = (if up \<noteq> [] then up @ ''/'' @ n1 else n1)"
    and d: "resolve fs1 dir = Some d" "is_dir fs1 d"
    and at1: "node_at fs1 (d @ [n1]) = Some (File bytes clk)"
    and ex: "node_at fs1 (d @ [f0]) \<noteq> None"
    by blast
  have pl: "plain f0" using plain_choose_filename [OF al] f0 by simp
  then have ps: "plain (stamped now' f0)" by (rule plain_stamped)
  from pl have ns: "CHR ''/'' \<notin> set f0" by (simp add: plain_def)
  have dirp: "dir = (if strip_slash ?p \<noteq> [] then ''/app/files/'' @ strip_slash ?p else ''/app/files'')"
    using dir up by simp
  have "os_path_isdir fs1 dir" using d by (auto simp: os_path_isdir_iff)
  from make_save_directory_existing [OF dirp this, of clk'] up
  have mk: "make_save_directory clk' fs1 up = (fs1, Inr dir)" by simp
  from nd isdir_child [OF ps d] have n: "\<not> is_dir fs1 (d @ [stamped now' f0])" by simp
  have form': "form_file ?form' = Some (f, bytes')" by simp
  have custom': "custom = str_strip (case form_filename ?form' of None \<Rightarrow> [] | Some n \<Rightarrow> n)"
    using custom by simp
  have up': "up = strip_slash (case form_path ?form' of None \<Rightarrow> [] | Some p \<Rightarrow> p)"
    using up by simp
  from stamped_upload [OF form' al custom' up' f0 mk d ex n]
  obtain fs2 where u: "upload_file now' clk' fs1 ?form'
           = (fs2, Uploaded (stamped now' f0) rel2 (''http://localhost:5000/files/'' @ rel2)
                    (length bytes'))"
    and d2: "resolve fs2 dir = Some d" "is_dir fs2 d"
    and at2: "node_at fs2 (d @ [stamped now' f0]) = Some (File bytes' clk')"
    and fr: "\<forall>q. q \<noteq> d @ [stamped now' f0] \<longrightarrow> is_dir fs2 q = is_dir fs1 q
                \<and> (\<forall>b t. (node_at fs2 q = Some (File b t)) = (node_at fs1 q = Some (File b t)))"
    unfolding rel2 [symmetric] by blast
  have ne: "stamped now' f0 \<noteq> n1"
  proof (cases "n1 = f0")
    case True
    with stamped_neq [OF ns, of now'] show ?thesis by simp
  next
    case False
    with n1 differ have "n1 = stamped now f0" and "strftime_stamp now \<noteq> strftime_stamp now'"
      by auto
    with stamped_inj [OF ns, of now now'] show ?thesis by auto
  qed
  then have "d @ [n1] \<noteq> d @ [stamped now' f0]" by simp
  with fr at1 have at1': "node_at fs2 (d @ [n1]) = Some (File bytes clk)" by blast
  from save_dir_string [OF dirp] have t: "dir \<noteq> []" and l: "last dir \<noteq> CHR ''/''" by simp_all
  have r1: "rel1 = (if strip_slash ?p \<noteq> [] then strip_slash ?p @ ''/'' @ n1 else n1)"
    using rel1 up by simp
  have r2: "rel2 = (if strip_slash ?p \<noteq> [] then strip_slash ?p @ ''/'' @ stamped now' f0
                    else stamped now' f0)"
    using rel2 up by simp
  from download_path_string [OF dirp r1 pn]
  have j1: "os_path_join UPLOAD_FOLDER rel1 = dir @ ''/'' @ n1" and a1: "\<not> prefix ''/'' rel1"
    by simp_all
  from download_path_string [OF dirp r2 ps]
  have j2: "os_path_join UPLOAD_FOLDER rel2 = dir @ ''/'' @ stamped now' f0"
    and a2: "\<not> prefix ''/'' rel2" by simp_all
  have g1: "download_file fs2 rel1 = (fs2, FileBody bytes)"
    using pn t l j1 dots(1) a1 d2 at1' by (rule download_stored)
  have g2: "download_file fs2 rel2 = (fs2, FileBody bytes')"
    using ps t l j2 dots(2) a2 d2 at2 by (rule download_stored)
  from u ne g1 g2 show ?thesis by blast
qed

section \<open>The claims\<close>

text \<open>
  C2. A request to the retrieval endpoint whose path contains \<open>..\<close> as a substring, or
  begins with a slash, is answered with \<open>INVALID_PATH\<close> and status 400. The answer is the
  same on every file system, and the file system is returned as it was: the path is
  rejected before anything is looked up.
\<close>

theorem download_rejects_traversal:
  assumes "(\<exists>a b. filename = a @ ''..'' @ b) \<or> (\<exists>rest. filename = CHR ''/'' # rest)"
  shows "\<forall>fs. download_file fs filename = (fs, ErrorJson 400 ''INVALID_PATH'')"
proof -
  have "str_in ''..'' filename \<or> prefix ''/'' filename"
    using assms by (auto simp: str_in_iff prefix_def)
  then show ?thesis by (simp add: download_file_def)
qed

theorem download_rejects_traversal_witness:
  "download_file [([''app''], Dir 0), ([''app'', ''secret''], File ''s'' 0)] ''../secret''
     = ([([''app''], Dir 0), ([''app'', ''secret''], File ''s'' 0)], ErrorJson 400 ''INVALID_PATH'')
   \<and> download_file [] ''/etc/passwd'' = ([], ErrorJson 400 ''INVALID_PATH'')"
proof -
  have a: "(\<exists>a b. ''../secret'' = a @ ''..'' @ b) \<or> (\<exists>rest. ''../secret'' = CHR ''/'' # rest)"
  proof -
    have "''../secret'' = [] @ ''..'' @ ''/secret''" by simp
    then show ?thesis by blast
  qed
  have b: "(\<exists>a b. ''/etc/passwd'' = a @ ''..'' @ b) \<or> (\<exists>rest. ''/etc/passwd'' = CHR ''/'' # rest)"
    by simp
  show ?thesis
    using download_rejects_traversal [OF a] download_rejects_traversal [OF b] by blast
qed

text \<open>
  C1. Claimed: whatever relative path an operation accepts (the path field of an upload,
  the path of create-folder, the folder path of a listing), the path it resolves and acts
  on lies in the storage root, also when the path has \<open>..\<close> components. Only
  \<open>download_file\<close> refuses such paths. On the fresh disk, create-folder with the path
  \<open>../etc\<close> answers with success and makes the directory \<open>/app/etc\<close>, which is not below
  \<open>/app/files\<close>; an upload with the path \<open>../out\<close> writes \<open>/app/out/x.pdf\<close>; and the listing
  of \<open>../..\<close> shows the root directory of the disk.
\<close>

theorem traversal_leaves_upload_folder:
  "create_folder 9 fresh (Some [''path'' \<mapsto> JString ''../etc''])
     = ([([''app''], Dir 9), ([''app'', ''files''], Dir 0), ([''app'', ''etc''], Dir 9)],
        FolderCreated ''../etc'' ''/app/files/../etc'')
   \<and> resolve fresh UPLOAD_FOLDER = Some [''app'', ''files'']
   \<and> resolve (fst (create_folder 9 fresh (Some [''path'' \<mapsto> JString ''../etc''])))
        ''/app/files/../etc'' = Some [''app'', ''etc'']
   \<and> \<not> prefix [''app'', ''files''] [''app'', ''etc'']
   \<and> upload_file noon 9 fresh
        \<lparr>form_file = Some (''x.pdf'', ''abc''), form_path = Some ''../out'', form_filename = None\<rparr>
       = ([([''app''], Dir 9), ([''app'', ''files''], Dir 0), ([''app'', ''out''], Dir 9),
           ([''app'', ''out'', ''x.pdf''], File ''abc'' 9)],
          Uploaded ''x.pdf'' ''../out/x.pdf'' ''http://localhost:5000/files/../out/x.pdf'' 3)
   \<and> list_files fresh ''../..''
       = (fresh, Listing ''../..''
            [\<lparr>item_name = ''app'', item_type = ''directory'', item_size = 0,
              item_modified_time = 0\<rparr>] 1)"
  by code_simp

text \<open>
  C4, as the code has it. An upload with a file part whose name is not empty is answered
  with \<open>INVALID_FILE_TYPE\<close> and status 400, the file system unchanged, when the name has
  no dot or what follows its last dot, lowercased, is not one of the allowed extensions;
  when the name has such an extension the answer is never \<open>INVALID_FILE_TYPE\<close>.
\<close>

theorem upload_checks_file_type:
  assumes "form_file form = Some (fname, bytes)" and "fname \<noteq> []"
  shows "(\<not> (\<exists>stem ext. fname = stem @ ''.'' @ ext \<and> CHR ''.'' \<notin> set ext
              \<and> str_lower ext \<in> ALLOWED_EXTENSIONS)
          \<longrightarrow> upload_file now clk fs form = (fs, ErrorJson 400 ''INVALID_FILE_TYPE''))
       \<and> ((\<exists>stem ext. fname = stem @ ''.'' @ ext \<and> CHR ''.'' \<notin> set ext
              \<and> str_lower ext \<in> ALLOWED_EXTENSIONS)
          \<longrightarrow> snd (upload_file now clk fs form) \<noteq> ErrorJson 400 ''INVALID_FILE_TYPE'')"
proof (intro conjI impI)
  assume "\<not> (\<exists>stem ext. fname = stem @ ''.'' @ ext \<and> CHR ''.'' \<notin> set ext
              \<and> str_lower ext \<in> ALLOWED_EXTENSIONS)"
  then have "\<not> allowed_file fname" by (simp add: allowed_file_iff)
  with assms show "upload_file now clk fs form = (fs, ErrorJson 400 ''INVALID_FILE_TYPE'')"
    by (simp add: upload_file_def)
next
  assume "\<exists>stem ext. fname = stem @ ''.'' @ ext \<and> CHR ''.'' \<notin> set ext
              \<and> str_lower ext \<in> ALLOWED_EXTENSIONS"
  then have "allowed_file fname" by (simp add: allowed_file_iff)
  with assms show "snd (upload_file now clk fs form) \<noteq> ErrorJson 400 ''INVALID_FILE_TYPE''"
    by (rule upload_accepted_not_400)
qed

theorem upload_checks_file_type_witness:
  "upload_file noon 5 fresh
      \<lparr>form_file = Some (''setup.exe'', ''MZ''), form_path = None, form_filename = None\<rparr>
     = (fresh, ErrorJson 400 ''INVALID_FILE_TYPE'')
   \<and> upload_file noon 5 fresh
      \<lparr>form_file = Some (''README'', ''hello''), form_path = None, form_filename = None\<rparr>
     = (fresh, ErrorJson 400 ''INVALID_FILE_TYPE'')
   \<and> snd (upload_file noon 5 fresh
      \<lparr>form_file = Some (''scan.JPeG'', ''abc''), form_path = None, form_filename = None\<rparr>)
     \<noteq> ErrorJson 400 ''INVALID_FILE_TYPE''"
proof -
  have 1: "\<not> allowed_file ''setup.exe''" by code_simp
  have 2: "\<not> allowed_file ''README''" by code_simp
  have 3: "allowed_file ''scan.JPeG''" by code_simp
  show ?thesis
    using 1 2 3
      upload_checks_file_type [of "\<lparr>form_file = Some (''setup.exe'', ''MZ''), form_path = None, form_filename = None\<rparr>" "''setup.exe''" "''MZ''" noon 5 fresh]
      upload_checks_file_type [of "\<lparr>form_file = Some (''README'', ''hello''), form_path = None, form_filename = None\<rparr>" "''README''" "''hello''" noon 5 fresh]
      upload_checks_file_type [of "\<lparr>form_file = Some (''scan.JPeG'', ''abc''), form_path = None, form_filename = None\<rparr>" "''scan.JPeG''" "''abc''" noon 5 fresh]
    unfolding allowed_file_iff by simp
qed

text \<open>
  C4 as claimed covers every upload whose file name has no extension. The empty name has
  none, and it is answered with \<open>EMPTY_FILENAME\<close>: that check comes first.
\<close>

theorem upload_empty_name_not_file_type:
  "CHR ''.'' \<notin> set ''''
   \<and> upload_file noon 5 fresh
        \<lparr>form_file = Some ('''', ''abc''), form_path = None, form_filename = None\<rparr>
       = (fresh, ErrorJson 400 ''EMPTY_FILENAME'')
   \<and> ErrorJson 400 ''EMPTY_FILENAME'' \<noteq> ErrorJson 400 ''INVALID_FILE_TYPE''"
  by (simp add: upload_file_def)

text \<open>
  C5, as the code has it. The answer \<open>EMPTY_FILENAME\<close> is given exactly when the file part
  is there and the name it was uploaded under is the empty string; the file system is
  unchanged then. The check is made on the name as uploaded and not on what sanitising
  leaves of it. An uploaded name that passes the extension check never sanitises to the
  empty name.
\<close>

theorem upload_empty_filename:
  "(form_file form = Some ([], bytes)
      \<longrightarrow> upload_file now clk fs form = (fs, ErrorJson 400 ''EMPTY_FILENAME''))
   \<and> (snd (upload_file now clk fs form) = ErrorJson 400 ''EMPTY_FILENAME''
      \<longrightarrow> (\<exists>bytes. form_file form = Some ([], bytes)))
   \<and> (allowed_file fname \<longrightarrow> secure_filename fname \<noteq> [])"
proof (intro conjI impI)
  assume "form_file form = Some ([], bytes)"
  then show "upload_file now clk fs form = (fs, ErrorJson 400 ''EMPTY_FILENAME'')"
    by (simp add: upload_file_def)
next
  assume r: "snd (upload_file now clk fs form) = ErrorJson 400 ''EMPTY_FILENAME''"
  show "\<exists>bytes. form_file form = Some ([], bytes)"
  proof (cases "form_file form")
    case None
    with r show ?thesis by (simp add: upload_file_def)
  next
    case (Some fb)
    obtain f b where fb: "fb = (f, b)" by (cases fb)
    show ?thesis
    proof (cases "f = []")
      case True
      with Some fb show ?thesis by simp
    next
      case False
      show ?thesis
      proof (cases "allowed_file f")
        case True
        from upload_accepted_not_400 [of form f b, OF _ False True] Some fb r
        show ?thesis by simp
      next
        case nal: False
        with Some fb False r show ?thesis by (simp add: upload_file_def)
      qed
    qed
  qed
next
  assume "allowed_file fname"
  from secure_filename_keeps_ext [OF this] show "secure_filename fname \<noteq> []" by auto
qed

theorem upload_empty_filename_witness:
  "upload_file noon 5 fresh \<lparr>form_file = Some ([], ''abc''), form_path = None, form_filename = None\<rparr>
     = (fresh, ErrorJson 400 ''EMPTY_FILENAME'')
   \<and> secure_filename ''x.pdf'' \<noteq> []"
proof -
  have "allowed_file ''x.pdf''" by code_simp
  then show ?thesis
    using upload_empty_filename [of "\<lparr>form_file = Some ([], ''abc''), form_path = None, form_filename = None\<rparr>" "''abc''" noon 5 fresh "''x.pdf''"]
    by simp
qed

text \<open>
  C5 as claimed fails for a custom name: \<open>...\<close> sanitises to the empty name, and the
  upload succeeds and stores the file under the name \<open>.pdf\<close>, which is only an extension.
\<close>

theorem upload_custom_name_sanitised_empty:
  "secure_filename ''...'' = []
   \<and> upload_file noon 5 fresh
        \<lparr>form_file = Some (''x.pdf'', ''abc''), form_path = None, form_filename = Some ''...''\<rparr>
       = ([([''app''], Dir 0), ([''app'', ''files''], Dir 5),
           ([''app'', ''files'', ''.pdf''], File ''abc'' 5)],
          Uploaded ''.pdf'' ''.pdf'' ''http://localhost:5000/files/.pdf'' 3)"
  by code_simp

text \<open>
  C9. When the path of a listing names a regular file, the check for existence passes,
  \<open>os.listdir\<close> raises \<open>NotADirectoryError\<close>, and the answer is \<open>LIST_ERROR\<close> with status
  500 and not \<open>PATH_NOT_FOUND\<close>.
\<close>

theorem list_of_regular_file:
  assumes "stat fs (os_path_join UPLOAD_FOLDER (strip_slash folder_path)) = Some (File bytes t)"
  shows "os_path_exists fs (os_path_join UPLOAD_FOLDER (strip_slash folder_path))
       \<and> os_listdir fs (os_path_join UPLOAD_FOLDER (strip_slash folder_path)) = Inl NotADirectoryError
       \<and> list_files fs folder_path = (fs, ErrorJson 500 ''LIST_ERROR'')"
  using assms
  by (auto simp: list_files_def os_path_exists_def os_listdir_def stat_def Let_def
           split: option.splits node.splits)

theorem list_of_regular_file_witness:
  "stat ((''app'' # [''files'', ''x.pdf''], File ''abc'' 5) # fresh) ''/app/files/x.pdf'' = Some (File ''abc'' 5)
   \<and> list_files (([''app'', ''files'', ''x.pdf''], File ''abc'' 5) # fresh) ''x.pdf''
       = (([''app'', ''files'', ''x.pdf''], File ''abc'' 5) # fresh, ErrorJson 500 ''LIST_ERROR'')"
proof -
  have j: "os_path_join UPLOAD_FOLDER (strip_slash ''x.pdf'') = ''/app/files/x.pdf''" by code_simp
  have s: "stat (([''app'', ''files'', ''x.pdf''], File ''abc'' 5) # fresh) ''/app/files/x.pdf'' = Some (File ''abc'' 5)"
    by code_simp
  show ?thesis
    using list_of_regular_file [of "([''app'', ''files'', ''x.pdf''], File ''abc'' 5) # fresh" "''x.pdf''" "''abc''" 5]
    unfolding j using s by simp
qed




text \<open>
  C8. On a well-formed file system (every one the service can reach from the fresh disk
  is), the listing of an existing directory has one item for each entry of the directory,
  in the order of enumeration, with the name, the kind, the size (the number of bytes of a
  file, 0 for a directory) and the time of last modification; the names are distinct and
  are those of the nodes directly below the directory; for a directory without entries the
  list is empty. For a path that does not exist the answer is \<open>PATH_NOT_FOUND\<close> with
  status 404, and the file system is as it was.
\<close>

theorem list_files_lists_children:
  assumes "wf_fs fs"
  shows "(\<forall>d. resolve fs (''/app/files/'' @ strip_slash folder_path) = Some d \<and> is_dir fs d \<longrightarrow>
            list_files fs folder_path
              = (fs, Listing folder_path (map listed_as (children fs d)) (length (children fs d)))
            \<and> distinct (map fst (children fs d))
            \<and> (\<forall>name n. (name, n) \<in> set (children fs d) \<longleftrightarrow> node_at fs (d @ [name]) = Some n))
       \<and> (\<not> os_path_exists fs (''/app/files/'' @ strip_slash folder_path) \<longrightarrow>
            list_files fs folder_path = (fs, ErrorJson 404 ''PATH_NOT_FOUND''))"
proof (intro conjI allI impI)
  fix d
  assume a: "resolve fs (''/app/files/'' @ strip_slash folder_path) = Some d \<and> is_dir fs d"
  let ?t = "''/app/files/'' @ strip_slash folder_path"
  from a have r: "resolve fs ?t = Some d" and dd: "is_dir fs d" by simp_all
  have ex: "os_path_exists fs ?t" using r dd by (auto simp: os_path_exists_def stat_def is_dir_iff)
  have ls: "os_listdir fs ?t = Inr (map fst (children fs d))"
    using r dd by (auto simp: os_listdir_def is_dir_iff)
  have "\<forall>e \<in> set (children fs d). plain (fst e) \<and> node_at fs (d @ [fst e]) = Some (snd e)"
    using children_plain [OF assms] children_iff [OF assms] by (metis prod.collapse)
  from list_items_children [OF r dd this]
  show "list_files fs folder_path
          = (fs, Listing folder_path (map listed_as (children fs d)) (length (children fs d)))"
    using ex ls by (simp add: list_files_def create_directory_path)
  show "distinct (map fst (children fs d))" using assms by (rule children_distinct)
  show "(name, n) \<in> set (children fs d) \<longleftrightarrow> node_at fs (d @ [name]) = Some n" for name n
    using assms by (rule children_iff)
next
  assume "\<not> os_path_exists fs (''/app/files/'' @ strip_slash folder_path)"
  then show "list_files fs folder_path = (fs, ErrorJson 404 ''PATH_NOT_FOUND'')"
    by (simp add: list_files_def create_directory_path)
qed

theorem list_files_lists_children_witness:
  "list_files two_dirs ''''
     = (two_dirs,
        Listing ''''
          [\<lparr>item_name = ''x.pdf'', item_type = ''file'', item_size = 3, item_modified_time = 5\<rparr>,
           \<lparr>item_name = ''a'', item_type = ''directory'', item_size = 0, item_modified_time = 7\<rparr>]
          2)
   \<and> list_files two_dirs ''/a/'' = (two_dirs, Listing ''/a/'' [] 0)
   \<and> list_files two_dirs ''a/b'' = (two_dirs, ErrorJson 404 ''PATH_NOT_FOUND'')"
proof -
  have s1: "strip_slash '''' = []" and s2: "strip_slash ''/a/'' = ''a''"
    and s3: "strip_slash ''a/b'' = ''a/b''" by code_simp+
  have r1: "resolve two_dirs (''/app/files/'' @ strip_slash '''') = Some [''app'', ''files'']
            \<and> is_dir two_dirs [''app'', ''files'']"
    unfolding s1 by code_simp
  have r2: "resolve two_dirs (''/app/files/'' @ strip_slash ''/a/'') = Some [''app'', ''files'', ''a'']
            \<and> is_dir two_dirs [''app'', ''files'', ''a'']"
    unfolding s2 by code_simp
  have r3: "\<not> os_path_exists two_dirs (''/app/files/'' @ strip_slash ''a/b'')"
    unfolding s3 by code_simp
  have c1: "children two_dirs [''app'', ''files'']
        = [(''x.pdf'', File ''abc'' 5), (''a'', Dir 7)]" by code_simp
  have c2: "children two_dirs [''app'', ''files'', ''a''] = []" by code_simp
  from list_files_lists_children [OF wf_two_dirs, of "''''"] r1
  have 1: "list_files two_dirs '''' = (two_dirs, Listing ''''
      (map listed_as (children two_dirs [''app'', ''files'']))
      (length (children two_dirs [''app'', ''files''])))" by blast
  from list_files_lists_children [OF wf_two_dirs, of "''/a/''"] r2
  have 2: "list_files two_dirs ''/a/'' = (two_dirs, Listing ''/a/''
      (map listed_as (children two_dirs [''app'', ''files'', ''a'']))
      (length (children two_dirs [''app'', ''files'', ''a''])))" by blast
  from list_files_lists_children [OF wf_two_dirs, of "''a/b''"] r3
  have 3: "list_files two_dirs ''a/b'' = (two_dirs, ErrorJson 404 ''PATH_NOT_FOUND'')" by blast
  show ?thesis using 1 2 3 unfolding c1 c2 by (simp add: listed_as_def)
qed






end
